theory Spec2Isabelle
  imports Main "HOL-Library.Sublist"
begin

section \<open>JavaScript strings\<close>

text \<open>
  A JavaScript string is a sequence of UTF-16 code units; a code unit is modelled as a
  natural number. \<open>js\<close> turns an Isabelle string literal (code units below 256) into
  such a sequence, so that the source's literals can be written as they stand.
\<close>

type_synonym jsstring = "nat list"

definition js :: "string \<Rightarrow> jsstring" where
  "js s = map of_char s"

text \<open>The character classes the source's regular expressions and \<open>trim\<close> use.\<close>

definition line_terminator :: "nat \<Rightarrow> bool" where
  "line_terminator c = (c = 10 \<or> c = 13 \<or> c = 8232 \<or> c = 8233)"

definition is_space :: "nat \<Rightarrow> bool" where
  "is_space c =
     (c = 9 \<or> c = 10 \<or> c = 11 \<or> c = 12 \<or> c = 13 \<or> c = 32 \<or> c = 160 \<or> c = 5760
      \<or> (8192 \<le> c \<and> c \<le> 8202) \<or> c = 8232 \<or> c = 8233 \<or> c = 8239 \<or> c = 8287
      \<or> c = 12288 \<or> c = 65279)"

definition is_word :: "nat \<Rightarrow> bool" where
  "is_word c = ((48 \<le> c \<and> c \<le> 57) \<or> (65 \<le> c \<and> c \<le> 90) \<or> c = 95 \<or> (97 \<le> c \<and> c \<le> 122))"

definition is_key_char :: "nat \<Rightarrow> bool" where
  "is_key_char c = (is_word c \<or> c = 46 \<or> c = 45)"

definition is_quote :: "nat \<Rightarrow> bool" where
  "is_quote q = (q = 39 \<or> q = 34 \<or> q = 96)"

text \<open>\<open>[^#\r\n]\<close>\<close>

definition value_char :: "nat \<Rightarrow> bool" where
  "value_char c = (c \<noteq> 35 \<and> c \<noteq> 13 \<and> c \<noteq> 10)"

definition js_trim :: "jsstring \<Rightarrow> jsstring" where
  "js_trim s = rev (dropWhile is_space (rev (dropWhile is_space s)))"

section \<open>Regular expressions with backtracking\<close>

text \<open>
  The patterns of the source, as a syntax tree, and their matcher in the
  continuation-passing form of the ECMAScript specification: a matcher takes the
  current state and a continuation and returns the first successful result in
  backtracking order, or \<open>None\<close>. \<open>Star greedy r\<close> is \<open>r*\<close> (\<open>r*?\<close> when not greedy),
  \<open>Opt r\<close> is \<open>r?\<close>, \<open>BOL\<close> and \<open>EOL\<close> are \<open>^\<close> and \<open>$\<close> under the \<open>m\<close> flag.
\<close>

datatype regex =
    Chars "nat \<Rightarrow> bool"
  | BOL
  | EOL
  | Seq regex regex
  | Alt regex regex
  | Star bool regex
  | Opt regex
  | Group nat regex
  | Backref nat

text \<open>
  A match state: the code unit before the current position (\<open>None\<close> at the start of
  the input), the input from the current position on, and the captures so far.
\<close>

record mstate =
  prev :: "nat option"
  rest :: "nat list"
  caps :: "nat \<Rightarrow> jsstring option"

fun advance :: "nat list \<Rightarrow> mstate \<Rightarrow> mstate" where
  "advance [] x = x"
| "advance (a # as) x = advance as (x\<lparr>prev := Some a, rest := tl (rest x)\<rparr>)"

fun groups :: "regex \<Rightarrow> nat list" where
  "groups (Seq r1 r2) = groups r1 @ groups r2"
| "groups (Alt r1 r2) = groups r1 @ groups r2"
| "groups (Star g r) = groups r"
| "groups (Opt r) = groups r"
| "groups (Group n r) = n # groups r"
| "groups r = []"

text \<open>Each round of a quantifier starts with the captures of its body cleared.\<close>

definition uncapture :: "nat list \<Rightarrow> mstate \<Rightarrow> mstate" where
  "uncapture ns x = (if ns = [] then x else x\<lparr>caps := (\<lambda>k. if k \<in> set ns then None else caps x k)\<rparr>)"

text \<open>
  A round of a quantifier that consumes nothing is rejected. Matching only moves
  forward, so a round has consumed something exactly when the rest got shorter.
\<close>

function m :: "regex \<Rightarrow> mstate \<Rightarrow> (mstate \<Rightarrow> mstate option) \<Rightarrow> mstate option" where
  "m (Chars P) x c =
     (case rest x of [] \<Rightarrow> None
      | a # as \<Rightarrow> if P a then c (x\<lparr>prev := Some a, rest := as\<rparr>) else None)"
| "m BOL x c =
     (case prev x of None \<Rightarrow> c x
      | Some a \<Rightarrow> if line_terminator a then c x else None)"
| "m EOL x c =
     (case rest x of [] \<Rightarrow> c x
      | a # as \<Rightarrow> if line_terminator a then c x else None)"
| "m (Seq r1 r2) x c = m r1 x (\<lambda>y. m r2 y c)"
| "m (Alt r1 r2) x c = (case m r1 x c of Some z \<Rightarrow> Some z | None \<Rightarrow> m r2 x c)"
| "m (Star greedy r) x c =
     (if greedy
      then (case m r (uncapture (groups r) x)
                   (\<lambda>y. if length (rest y) < length (rest x) then m (Star greedy r) y c else None) of
              Some z \<Rightarrow> Some z
            | None \<Rightarrow> c x)
      else (case c x of
              Some z \<Rightarrow> Some z
            | None \<Rightarrow> m r (uncapture (groups r) x)
                        (\<lambda>y. if length (rest y) < length (rest x) then m (Star greedy r) y c else None)))"
| "m (Opt r) x c =
     (case m r (uncapture (groups r) x)
             (\<lambda>y. if length (rest y) < length (rest x) then c y else None) of
        Some z \<Rightarrow> Some z
      | None \<Rightarrow> c x)"
| "m (Group n r) x c =
     m r x (\<lambda>y. c (y\<lparr>caps := (caps y)(n \<mapsto> take (length (rest x) - length (rest y)) (rest x))\<rparr>))"
| "m (Backref n) x c =
     (case caps x n of None \<Rightarrow> c x
      | Some s \<Rightarrow> if prefix s (rest x) then c (advance s x) else None)"
  by pat_completeness auto
termination
  by (relation "measures [\<lambda>(r, x, c). size r, \<lambda>(r, x, c). length (rest x)]") auto

declare m.simps [simp del]

text \<open>\<open>r+\<close> and \<open>r+?\<close>: one round of \<open>r\<close>, then \<open>r*\<close> or \<open>r*?\<close>.\<close>

definition Plus :: "bool \<Rightarrow> regex \<Rightarrow> regex" where
  "Plus greedy r = Seq r (Star greedy r)"

definition Chr :: "nat \<Rightarrow> regex" where
  "Chr a = Chars (\<lambda>b. b = a)"

definition NotChr :: "nat \<Rightarrow> regex" where
  "NotChr a = Chars (\<lambda>b. b \<noteq> a)"

text \<open>
  \<open>exec\<close> of a pattern with the \<open>g\<close> flag, from a position on: the first position at
  or after it where the pattern matches (the end of the input included). It returns the
  code units skipped before the match and the final state of the match.
\<close>

fun search :: "regex \<Rightarrow> nat option \<Rightarrow> jsstring \<Rightarrow> (jsstring \<times> mstate) option" where
  "search re b [] =
     (case m re \<lparr>prev = b, rest = [], caps = (\<lambda>k. None)\<rparr> Some of
        None \<Rightarrow> None
      | Some z \<Rightarrow> Some ([], z))"
| "search re b (a # as) =
     (case m re \<lparr>prev = b, rest = a # as, caps = (\<lambda>k. None)\<rparr> Some of
        Some z \<Rightarrow> Some ([], z)
      | None \<Rightarrow> (case search re (Some a) as of
                   None \<Rightarrow> None
                 | Some (sk, z) \<Rightarrow> Some (a # sk, z)))"

text \<open>
  \<open>String.prototype.replace\<close> with a pattern that has the \<open>g\<close> flag: every match is
  replaced, what lies between the matches is kept, and after an empty match the search
  goes on one code unit further.
\<close>

function replace_all :: "regex \<Rightarrow> (mstate \<Rightarrow> jsstring) \<Rightarrow> nat option \<Rightarrow> jsstring \<Rightarrow> jsstring" where
  "replace_all re f b s =
     (case search re b s of
        None \<Rightarrow> s
      | Some (sk, z) \<Rightarrow>
          sk @ f z @
          (if length (rest z) < length s - length sk
           then replace_all re f (prev z) (rest z)
           else (case drop (length sk) s of
                   [] \<Rightarrow> []
                 | a # as \<Rightarrow> a # replace_all re f (Some a) as)))"
  by pat_completeness auto
termination
proof (relation "measure (\<lambda>(re, f, b, s). length s)", goal_cases)
  case 1
  show ?case by simp
next
  case (2 re f b s x2 sk z)
  then show ?case by simp
next
  case (3 re f b s x2 sk z a as)
  have "length (drop (length sk) s) = Suc (length as)"
    using 3 by simp
  then have "length as < length s"
    by simp
  then show ?case by simp
qed

declare replace_all.simps [simp del]

section \<open>Matching only moves forward\<close>

text \<open>
  \<open>min_len r\<close> is a lower bound of what a match of \<open>r\<close> consumes. The loop of \<open>parse\<close>
  below terminates because every match of its pattern consumes at least a key and a
  separator.
\<close>

fun min_len :: "regex \<Rightarrow> nat" where
  "min_len (Chars P) = 1"
| "min_len (Seq r1 r2) = min_len r1 + min_len r2"
| "min_len (Alt r1 r2) = min (min_len r1) (min_len r2)"
| "min_len (Group n r) = min_len r"
| "min_len r = 0"

lemma rest_uncapture [simp]: "rest (uncapture ns x) = rest x"
  by (simp add: uncapture_def)

lemma prev_uncapture [simp]: "prev (uncapture ns x) = prev x"
  by (simp add: uncapture_def)

lemma uncapture_Nil [simp]: "uncapture [] x = x"
  by (simp add: uncapture_def)

lemma rest_advance: "rest (advance s x) = drop (length s) (rest x)"
  by (induction s arbitrary: x) (simp_all add: drop_Suc tl_drop)

lemma caps_advance [simp]: "caps (advance s x) = caps x"
  by (induction s arbitrary: x) simp_all

lemma m_progress:
  "m r x c = Some z \<Longrightarrow> \<exists>y. c y = Some z \<and> length (rest y) + min_len r \<le> length (rest x)"
proof (induction r x c arbitrary: z rule: m.induct)
  case (1 P x c)
  then show ?case by (auto simp: m.simps split: list.splits if_splits)
next
  case (2 x c)
  then show ?case by (auto simp: m.simps split: option.splits if_splits)
next
  case (3 x c)
  then show ?case by (auto simp: m.simps split: list.splits if_splits)
next
  case (4 r1 r2 x c)
  from 4(2)[of z] 4(3) obtain y1 where y1: "m r2 y1 c = Some z" "length (rest y1) + min_len r1 \<le> length (rest x)"
    by (auto simp: m.simps)
  from 4(1)[OF y1(1)] obtain y where "c y = Some z" "length (rest y) + min_len r2 \<le> length (rest y1)"
    by auto
  with y1 show ?case by (intro exI[of _ y]) simp
next
  case (5 r1 r2 x c)
  show ?case
  proof (cases "m r1 x c")
    case None
    with 5(3) have "m r2 x c = Some z" by (simp add: m.simps)
    from 5(2)[OF None this] show ?thesis by auto
  next
    case (Some z')
    with 5(3) have "z' = z" by (simp add: m.simps)
    with 5(1)[of z] Some show ?thesis by auto
  qed
next
  case (6 greedy r x c)
  let ?d = "\<lambda>y. if length (rest y) < length (rest x) then m (Star greedy r) y c else None"
  have body: "\<exists>y. c y = Some z \<and> length (rest y) \<le> length (rest x)"
    if h: "m r (uncapture (groups r) x) ?d = Some z" and g: "greedy \<or> c x = None"
  proof -
    have "\<exists>y. ?d y = Some z \<and> length (rest y) + min_len r \<le> length (rest (uncapture (groups r) x))"
    proof (cases greedy)
      case True
      from 6(2)[OF True h] show ?thesis .
    next
      case False
      with g have "c x = None" by simp
      from 6(4)[OF False this h] show ?thesis .
    qed
    then obtain y where y: "?d y = Some z" "length (rest y) \<le> length (rest x)"
      by auto
    then have lt: "length (rest y) < length (rest x)" and my: "m (Star greedy r) y c = Some z"
      by (auto split: if_splits)
    have "\<exists>y'. c y' = Some z \<and> length (rest y') + min_len (Star greedy r) \<le> length (rest y)"
    proof (cases greedy)
      case True
      from 6(1)[OF True lt my] show ?thesis .
    next
      case False
      with g have "c x = None" by simp
      from 6(3)[OF False this lt my] show ?thesis .
    qed
    with lt show ?thesis by fastforce
  qed
  have unf: "(if greedy
      then (case m r (uncapture (groups r) x) ?d of Some z \<Rightarrow> Some z | None \<Rightarrow> c x)
      else (case c x of Some z \<Rightarrow> Some z | None \<Rightarrow> m r (uncapture (groups r) x) ?d)) = Some z"
    using 6(5) by (subst (asm) m.simps) simp
  show ?case
  proof (cases greedy)
    case True
    show ?thesis
    proof (cases "m r (uncapture (groups r) x) ?d")
      case None
      with unf True have "c x = Some z" by simp
      then show ?thesis by auto
    next
      case (Some z')
      with unf True have "z' = z" by simp
      with Some body True show ?thesis by auto
    qed
  next
    case False
    show ?thesis
    proof (cases "c x")
      case None
      with unf False have "m r (uncapture (groups r) x) ?d = Some z" by simp
      with body None show ?thesis by auto
    next
      case (Some z')
      with unf False have "z' = z" by simp
      with Some show ?thesis by auto
    qed
  qed
next
  case (7 r x c)
  let ?d = "\<lambda>y. if length (rest y) < length (rest x) then c y else None"
  show ?case
  proof (cases "m r (uncapture (groups r) x) ?d")
    case None
    with 7(2) have "c x = Some z" by (simp add: m.simps)
    then show ?thesis by auto
  next
    case (Some z')
    with 7(2) have "z' = z" by (simp add: m.simps)
    with Some 7(1)[of z] obtain y where "?d y = Some z" by auto
    then show ?thesis by (auto split: if_splits intro!: exI[of _ y])
  qed
next
  case (8 n r x c)
  from 8(2) have "m r x (\<lambda>y. c (y\<lparr>caps := (caps y)(n \<mapsto> take (length (rest x) - length (rest y)) (rest x))\<rparr>)) = Some z"
    by (simp add: m.simps)
  from 8(1)[OF this] show ?case by auto
next
  case (9 n x c)
  then show ?case
    by (auto simp: m.simps rest_advance split: option.splits if_splits)
qed

lemma search_progress:
  "search re b s = Some (sk, z) \<Longrightarrow> length sk + length (rest z) + min_len re \<le> length s"
proof (induction s arbitrary: b sk z)
  case Nil
  then obtain z' where "m re \<lparr>prev = b, rest = [], caps = (\<lambda>k. None)\<rparr> Some = Some z'" "sk = []" "z' = z"
    by (auto split: option.splits)
  with m_progress[of re _ Some z] show ?case by fastforce
next
  case (Cons a as)
  show ?case
  proof (cases "m re \<lparr>prev = b, rest = a # as, caps = (\<lambda>k. None)\<rparr> Some")
    case None
    with Cons.prems obtain sk' where "search re (Some a) as = Some (sk', z)" "sk = a # sk'"
      by (auto split: option.splits)
    with Cons.IH[of "Some a" sk' z] show ?thesis by simp
  next
    case (Some z')
    with Cons.prems have "sk = []" "z' = z" by auto
    with Some m_progress[of re _ Some z] show ?thesis by fastforce
  qed
qed

section \<open>The built-in parser\<close>

text \<open>
  The own enumerable properties of a plain object with string values, as \<open>parse\<close>
  returns it.
\<close>

type_synonym obj = "jsstring \<rightharpoonup> jsstring"

text \<open>
  \<open>obj[key] = value\<close> on a plain object: an ordinary property is created or
  overwritten. The key \<open>__proto__\<close> is the one exception: unless the object has an own
  property of that name, the assignment reaches the setter the object inherits from
  \<open>Object.prototype\<close>, which ignores a string.
\<close>

definition proto_key :: jsstring where
  "proto_key = js ''__proto__''"

definition js_set :: "obj \<Rightarrow> jsstring \<Rightarrow> jsstring \<Rightarrow> obj" where
  "js_set ob key v = (if key = proto_key \<and> ob key = None then ob else ob(key \<mapsto> v))"

text \<open>The pattern \<open>LINE\<close> of the source, part by part.\<close>

definition ws :: regex where
  "ws = Chars is_space"

text \<open>\<open>export\<close> and \<open>(?:export\s+)?\<close>\<close>

definition export_kw :: regex where
  "export_kw = Seq (Chr 101) (Seq (Chr 120) (Seq (Chr 112) (Seq (Chr 111) (Seq (Chr 114) (Chr 116)))))"

definition export_opt :: regex where
  "export_opt = Opt (Seq export_kw (Plus True ws))"

text \<open>\<open>([\w.-]+)\<close>\<close>

definition key_re :: regex where
  "key_re = Group 1 (Plus True (Chars is_key_char))"

text \<open>\<open>(?:\s*=\s*?|:\s+?)\<close>\<close>

definition separator :: regex where
  "separator =
     Alt (Seq (Star True ws) (Seq (Chr 61) (Star False ws)))
         (Seq (Chr 58) (Plus False ws))"

text \<open>\<open>\s*'(?:\\'|[^'])*'\<close>, for the quote \<open>q\<close>\<close>

definition quoted :: "nat \<Rightarrow> regex" where
  "quoted q =
     Seq (Star True ws)
       (Seq (Chr q) (Seq (Star True (Alt (Seq (Chr 92) (Chr q)) (NotChr q))) (Chr q)))"

text \<open>The second group: a value in single quotes, double quotes or backticks, or \<open>[^#\r\n]+\<close>.\<close>

definition value_re :: regex where
  "value_re = Alt (quoted 39) (Alt (quoted 34) (Alt (quoted 96) (Plus True (Chars value_char))))"

definition value_opt :: regex where
  "value_opt = Opt (Group 2 value_re)"

text \<open>\<open>#.*\<close>\<close>

definition comment_re :: regex where
  "comment_re = Seq (Chr 35) (Star True (Chars (\<lambda>c. \<not> line_terminator c)))"

text \<open>\<open>\s*(?:#.*)?(?:$|$)\<close>\<close>

definition line_end :: regex where
  "line_end = Seq (Star True ws) (Seq (Opt comment_re) (Alt EOL EOL))"

definition LINE :: regex where
  "LINE =
     Seq (Alt BOL BOL)
       (Seq (Star True ws)
         (Seq export_opt (Seq key_re (Seq separator (Seq value_opt line_end)))))"

text \<open>\<open>/\r\n?/mg\<close>, \<open>/^(['"`])([\s\S]*)\1$/mg\<close>, \<open>/\\n/g\<close> and \<open>/\\r/g\<close>\<close>

definition CRLF :: regex where
  "CRLF = Seq (Chr 13) (Opt (Chr 10))"

definition QUOTES :: regex where
  "QUOTES =
     Seq BOL
       (Seq (Group 1 (Chars is_quote))
         (Seq (Group 2 (Star True (Chars (\<lambda>c. is_space c \<or> \<not> is_space c))))
           (Seq (Backref 1) EOL)))"

definition BACKSLASH_N :: regex where
  "BACKSLASH_N = Seq (Chr 92) (Chr 110)"

definition BACKSLASH_R :: regex where
  "BACKSLASH_R = Seq (Chr 92) (Chr 114)"

text \<open>A capture of a match, the empty string when it is undefined.\<close>

definition capture :: "nat \<Rightarrow> mstate \<Rightarrow> jsstring" where
  "capture n z = (case caps z n of None \<Rightarrow> [] | Some v \<Rightarrow> v)"

text \<open>The body of the loop of \<open>parse\<close>: the value one match stores under its key.\<close>

definition unquote :: "jsstring \<Rightarrow> jsstring" where
  "unquote v =
     (let value = js_trim v;
          maybeQuote = (case value of [] \<Rightarrow> None | a # as \<Rightarrow> Some a);
          value = replace_all QUOTES (capture 2) None value
      in if maybeQuote = Some 34
         then replace_all BACKSLASH_R (\<lambda>z. [13]) None (replace_all BACKSLASH_N (\<lambda>z. [10]) None value)
         else value)"

function exec_loop :: "obj \<Rightarrow> nat option \<Rightarrow> jsstring \<Rightarrow> obj" where
  "exec_loop ob b s =
     (case search LINE b s of
        None \<Rightarrow> ob
      | Some (sk, z) \<Rightarrow>
          exec_loop (js_set ob (capture 1 z) (unquote (capture 2 z))) (prev z) (rest z))"
  by pat_completeness auto
termination
proof (relation "measure (\<lambda>(ob, b, s). length s)", goal_cases)
  case 1
  show ?case by simp
next
  case (2 ob b s x2 sk z)
  have "0 < min_len LINE"
    by (simp add: LINE_def key_re_def Plus_def)
  with search_progress[of LINE b s sk z] 2 show ?case
    by simp
qed

declare exec_loop.simps [simp del]

text \<open>The matches the loop goes through, in order: each one's key and stored value.\<close>

function entries :: "nat option \<Rightarrow> jsstring \<Rightarrow> (jsstring \<times> jsstring) list" where
  "entries b s =
     (case search LINE b s of
        None \<Rightarrow> []
      | Some (sk, z) \<Rightarrow> (capture 1 z, unquote (capture 2 z)) # entries (prev z) (rest z))"
  by pat_completeness auto
termination
proof (relation "measure (\<lambda>(b, s). length s)", goal_cases)
  case 1
  show ?case by simp
next
  case (2 b s x2 sk z)
  have "0 < min_len LINE"
    by (simp add: LINE_def key_re_def Plus_def)
  with search_progress[of LINE b s sk z] 2 show ?case
    by simp
qed

declare entries.simps [simp del]

section \<open>File contents\<close>

text \<open>
  What \<open>readFileSync\<close> returns: a \<open>Buffer\<close> of bytes when no encoding is given, a
  string otherwise. A \<open>Buffer\<close> is an object and so always truthy, a string is truthy
  unless it is empty, \<open>undefined\<close> is falsy.
\<close>

datatype content = Buffer "nat list" | Text jsstring

fun truthy :: "content option \<Rightarrow> bool" where
  "truthy None = False"
| "truthy (Some (Buffer bs)) = True"
| "truthy (Some (Text s)) = (s \<noteq> [])"

text \<open>\<open>x || ''\<close>: a falsy string is the empty string already.\<close>

fun or_empty :: "content option \<Rightarrow> content" where
  "or_empty None = Text []"
| "or_empty (Some (Buffer bs)) = Buffer bs"
| "or_empty (Some (Text s)) = Text s"

text \<open>
  \<open>src.toString()\<close>: a \<open>Buffer\<close> is decoded as UTF-8, a string is itself. The decoder
  of the runtime, from an encoding's name and bytes to a string, is a parameter.
\<close>

fun toString :: "(jsstring \<Rightarrow> nat list \<Rightarrow> jsstring) \<Rightarrow> content \<Rightarrow> jsstring" where
  "toString dec (Buffer bs) = dec (js ''utf8'') bs"
| "toString dec (Text s) = s"

definition parse :: "(jsstring \<Rightarrow> nat list \<Rightarrow> jsstring) \<Rightarrow> content \<Rightarrow> obj" where
  "parse dec src =
     (let lines = toString dec src;
          lines = replace_all CRLF (\<lambda>z. [10]) None lines
      in exec_loop Map.empty None lines)"

section \<open>process.env\<close>

text \<open>
  \<open>process.env\<close> is not a plain object. Behind it is the environment of the process,
  a mapping from the names of the variables that are set to their values. A property
  key reaches the operating system as a C string in UTF-8: an unpaired surrogate of
  the key becomes U+FFFD, and the key ends before its first NUL. No variable has the
  empty name or a name with \<open>=\<close> in it (POSIX): writing such a property does
  nothing, reading it finds no variable.
\<close>

type_synonym environment = "jsstring \<rightharpoonup> jsstring"

definition high_surrogate :: "nat \<Rightarrow> bool" where
  "high_surrogate c = (55296 \<le> c \<and> c \<le> 56319)"

definition low_surrogate :: "nat \<Rightarrow> bool" where
  "low_surrogate c = (56320 \<le> c \<and> c \<le> 57343)"

text \<open>A string after its conversion to UTF-8: each unpaired surrogate is U+FFFD.\<close>

fun to_well_formed :: "jsstring \<Rightarrow> jsstring" where
  "to_well_formed (a # b # t) =
     (if high_surrogate a \<and> low_surrogate b then a # b # to_well_formed t
      else (if high_surrogate a \<or> low_surrogate a then 65533 else a) # to_well_formed (b # t))"
| "to_well_formed [a] = [if high_surrogate a \<or> low_surrogate a then 65533 else a]"
| "to_well_formed [] = []"

text \<open>The variable a property key of \<open>process.env\<close> names, if any.\<close>

definition env_name :: "jsstring \<Rightarrow> jsstring option" where
  "env_name key =
     (let name = takeWhile (\<lambda>c. c \<noteq> 0) (to_well_formed key)
      in if name = [] \<or> 61 \<in> set name then None else Some name)"

text \<open>
  A property that names no variable that is set is looked up in \<open>Object.prototype\<close>,
  as on any object: \<open>process.env['toString']\<close> is a function when no variable of that
  name is set, and \<open>process.env['__proto__']\<close> is \<open>Object.prototype\<close> itself. These
  are the members of \<open>Object.prototype\<close>, and the string each one converts to (in a
  template literal, or as a property key).
\<close>

definition object_prototype :: "jsstring list" where
  "object_prototype =
     map js [''constructor'', ''__defineGetter__'', ''__defineSetter__'', ''hasOwnProperty'',
             ''__lookupGetter__'', ''__lookupSetter__'', ''isPrototypeOf'', ''propertyIsEnumerable'',
             ''toString'', ''valueOf'', ''__proto__'', ''toLocaleString'']"

definition member_text :: "jsstring \<Rightarrow> jsstring" where
  "member_text name =
     (if name = js ''__proto__'' then js ''[object Object]''
      else js ''function '' @ (if name = js ''constructor'' then js ''Object'' else name)
           @ js ''() { [native code] }'')"

text \<open>
  What \<open>process.env[key]\<close> is when it is not \<open>undefined\<close>: the value of a variable,
  or the member of \<open>Object.prototype\<close> of that name.
\<close>

datatype env_value = Variable jsstring | Inherited jsstring

definition process_env_get :: "environment \<Rightarrow> jsstring \<Rightarrow> env_value option" where
  "process_env_get env key =
     (case (case env_name key of None \<Rightarrow> None | Some name \<Rightarrow> env name) of
        Some s \<Rightarrow> Some (Variable s)
      | None \<Rightarrow> if key \<in> set object_prototype then Some (Inherited key) else None)"

fun string_of :: "env_value \<Rightarrow> jsstring" where
  "string_of (Variable s) = s"
| "string_of (Inherited name) = member_text name"

text \<open>\<open>process.env[key] = s\<close>, for a string \<open>s\<close>\<close>

definition process_env_set :: "environment \<Rightarrow> jsstring \<Rightarrow> jsstring \<Rightarrow> environment" where
  "process_env_set env key s = (case env_name key of None \<Rightarrow> env | Some name \<Rightarrow> env(name \<mapsto> s))"

section \<open>loadEnv\<close>

text \<open>
  The collaborators of \<open>loadEnv\<close> outside the repository: the file system
  (\<open>readFileSync\<close> gives the bytes of a file, \<open>None\<close> where it throws),
  \<open>path.resolve(process.cwd(), name)\<close>, the runtime's decoder,
  \<open>JSON.stringify(value, null, 2)\<close> on an issue, and the conversion to a string that
  \<open>process.env\<close> applies to a value stored in it. \<open>loadEnv\<close> takes the environment
  of the process as an argument and returns it, updated, in its outcome.
\<close>

record ('i, 'v) host =
  readFileSync :: "jsstring \<rightharpoonup> nat list"
  resolve_cwd :: "jsstring \<Rightarrow> jsstring"
  decode :: "jsstring \<Rightarrow> nat list \<Rightarrow> jsstring"
  stringify :: "'i \<Rightarrow> jsstring"
  to_env :: "'v \<Rightarrow> jsstring"

record options =
  corePath :: "jsstring option"
  defaultsPathsMap :: "(jsstring \<rightharpoonup> jsstring) option"
  processEnvKey :: "jsstring option"
  parse_option :: "(content \<Rightarrow> obj) option"
  encoding :: "jsstring option"

text \<open>
  The result of \<open>schema.try\<close>: the issues, or the validated value, given by its own
  enumerable properties in the order \<open>Object.assign\<close> goes through them.
\<close>

datatype ('i, 'v) try_result = Ok "(jsstring \<times> 'v) list" | Failed "'i list"

datatype error = Error jsstring

text \<open>
  What a call of \<open>loadEnv\<close> leaves behind: its result, the environment after the
  call, and the paths of the files it has tried to read, in order.
\<close>

record outcome =
  result :: "error + unit"
  env_after :: environment
  reads :: "jsstring list"

text \<open>\<open>opt?.field\<close>\<close>

definition opt_field :: "(options \<Rightarrow> 'a option) \<Rightarrow> options option \<Rightarrow> 'a option" where
  "opt_field f opt = (case opt of None \<Rightarrow> None | Some opts \<Rightarrow> f opts)"

text \<open>\<open>x || d\<close> on an optional string: \<open>undefined\<close> and the empty string give \<open>d\<close>.\<close>

definition js_or :: "jsstring option \<Rightarrow> jsstring \<Rightarrow> jsstring" where
  "js_or x d = (case x of None \<Rightarrow> d | Some s \<Rightarrow> if s = [] then d else s)"

text \<open>
  \<open>loadFile\<close> returns \<open>undefined\<close> whenever \<open>readFileSync\<close> throws. It throws, before
  it looks at any file, when the path it is given is not a string (\<open>None\<close>).
\<close>

definition loadFile :: "('i, 'v) host \<Rightarrow> jsstring option \<Rightarrow> jsstring option \<Rightarrow> content option" where
  "loadFile h filePath enc =
     (case filePath of
        None \<Rightarrow> None
      | Some p \<Rightarrow>
          (case readFileSync h p of
             None \<Rightarrow> None
           | Some bs \<Rightarrow> Some (case enc of None \<Rightarrow> Buffer bs | Some e \<Rightarrow> Text (decode h e bs))))"

text \<open>
  \<open>Object.assign(target, source)\<close> on plain objects: every own property of the source
  is assigned to the target, as \<open>js_set\<close> does it.
\<close>

definition object_assign :: "obj \<Rightarrow> obj \<Rightarrow> obj" where
  "object_assign target source =
     (\<lambda>k. case source k of
            None \<Rightarrow> target k
          | Some v \<Rightarrow> if k = proto_key \<and> target k = None then None else Some v)"

text \<open>
  \<open>Object.assign(process.env, value)\<close>: one assignment \<open>process.env[key] = value[key]\<close>
  for each property of the value, in order; every value is stored as a string.
\<close>

definition env_assign :: "('v \<Rightarrow> jsstring) \<Rightarrow> environment \<Rightarrow> (jsstring \<times> 'v) list \<Rightarrow> environment" where
  "env_assign str env v = fold (\<lambda>(key, a) e. process_env_set e key (str a)) v env"

text \<open>\<open>xs.join('\n')\<close>\<close>

fun join_lines :: "jsstring list \<Rightarrow> jsstring" where
  "join_lines [] = []"
| "join_lines [x] = x"
| "join_lines (x # y # ys) = x @ [10] @ join_lines (y # ys)"

definition missing_environment :: jsstring where
  "missing_environment =
     js ''For loading the actual .env defaults file, there is necessary environment in process.env''"

definition no_source_file :: jsstring where
  "no_source_file =
     js ''There are necessary either the core (.env) file or defaults (.env.[environment].defaults) file''"

definition validation_errors :: "('i, 'v) host \<Rightarrow> 'i list \<Rightarrow> jsstring" where
  "validation_errors h issues = js ''Validation errors: '' @ join_lines (map (stringify h) issues)"

definition env_key :: "options option \<Rightarrow> jsstring" where
  "env_key opt = js_or (opt_field processEnvKey opt) (js ''NODE_ENV'')"

definition coreEnvFilePath :: "('i, 'v) host \<Rightarrow> options option \<Rightarrow> jsstring" where
  "coreEnvFilePath h opt = js_or (opt_field corePath opt) (resolve_cwd h (js ''.env''))"

text \<open>
  \<open>opt?.defaultsPathsMap?.[currentEnvironment] || path.resolve(...)\<close>. The map is a
  plain object, given by its own properties: the name of a member of
  \<open>Object.prototype\<close> that is not a property of the map's own finds that member, which
  is truthy and not a string (\<open>None\<close>).
\<close>

definition defaultsEnvFilePath :: "('i, 'v) host \<Rightarrow> options option \<Rightarrow> jsstring \<Rightarrow> jsstring option" where
  "defaultsEnvFilePath h opt currentEnvironment =
     (let resolved = resolve_cwd h (js ''.env.'' @ currentEnvironment @ js ''.defaults'')
      in case opt_field defaultsPathsMap opt of
           None \<Rightarrow> Some resolved
         | Some mp \<Rightarrow>
             (case mp currentEnvironment of
                Some p \<Rightarrow> Some (if p = [] then resolved else p)
              | None \<Rightarrow> if currentEnvironment \<in> set object_prototype then None else Some resolved))"

definition actualParse :: "('i, 'v) host \<Rightarrow> options option \<Rightarrow> content \<Rightarrow> obj" where
  "actualParse h opt = (case opt_field parse_option opt of None \<Rightarrow> parse (decode h) | Some p \<Rightarrow> p)"

definition loadedEnvVariables ::
  "('i, 'v) host \<Rightarrow> options option \<Rightarrow> content option \<Rightarrow> content option \<Rightarrow> obj" where
  "loadedEnvVariables h opt coreEnvFileBuffer defaultsEnvFileBuffer =
     object_assign (actualParse h opt (or_empty defaultsEnvFileBuffer))
                   (actualParse h opt (or_empty coreEnvFileBuffer))"

definition loadEnv ::
  "('i, 'v) host \<Rightarrow> (obj \<Rightarrow> ('i, 'v) try_result) \<Rightarrow> options option \<Rightarrow> environment \<Rightarrow> outcome" where
  "loadEnv h schema opt env =
     (case process_env_get env (env_key opt) of
        None \<Rightarrow> \<lparr>result = Inl (Error missing_environment), env_after = env, reads = []\<rparr>
      | Some currentEnvironment \<Rightarrow>
          if currentEnvironment = Variable []
          then \<lparr>result = Inl (Error missing_environment), env_after = env, reads = []\<rparr>
          else
            let coreEnvFilePath = coreEnvFilePath h opt;
                defaultsEnvFilePath = defaultsEnvFilePath h opt (string_of currentEnvironment);
                coreEnvFileBuffer = loadFile h (Some coreEnvFilePath) (opt_field encoding opt);
                defaultsEnvFileBuffer = loadFile h defaultsEnvFilePath (opt_field encoding opt);
                files = coreEnvFilePath # (case defaultsEnvFilePath of None \<Rightarrow> [] | Some p \<Rightarrow> [p])
            in if \<not> truthy coreEnvFileBuffer \<and> \<not> truthy defaultsEnvFileBuffer
               then \<lparr>result = Inl (Error no_source_file), env_after = env, reads = files\<rparr>
               else
                 (case schema (loadedEnvVariables h opt coreEnvFileBuffer defaultsEnvFileBuffer) of
                    Failed issues \<Rightarrow>
                      \<lparr>result = Inl (Error (validation_errors h issues)), env_after = env, reads = files\<rparr>
                  | Ok v \<Rightarrow>
                      \<lparr>result = Inr (), env_after = env_assign (to_env h) env v, reads = files\<rparr>))"

section \<open>What the specification says about values\<close>

text \<open>
  Escape expansion as the specification words it: in one pass from left to right, each
  two-character sequence backslash \<open>n\<close> becomes a newline and each backslash \<open>r\<close> a
  carriage return; everything else is kept.
\<close>

fun expand_escapes :: "jsstring \<Rightarrow> jsstring" where
  "expand_escapes (x # y # t) =
     (if x = 92 \<and> y = 110 then 10 # expand_escapes t
      else if x = 92 \<and> y = 114 then 13 # expand_escapes t
      else x # expand_escapes (y # t))"
| "expand_escapes [x] = [x]"
| "expand_escapes [] = []"

text \<open>
  The body of a value in quotes \<open>q\<close>: code units other than the quote, and
  backslash-quote pairs; a backslash is not its last code unit.
\<close>

fun quoted_body :: "nat \<Rightarrow> jsstring \<Rightarrow> bool" where
  "quoted_body q [] = True"
| "quoted_body q [a] = (a \<noteq> q \<and> a \<noteq> 92)"
| "quoted_body q (a # b # t) =
     (if a = 92 \<and> b = q then quoted_body q t else a \<noteq> q \<and> quoted_body q (b # t))"

text \<open>
  An unquoted value: no \<open>#\<close>, no line break, and its first code unit after leading
  whitespace is not a quote.
\<close>

definition unquoted :: "jsstring \<Rightarrow> bool" where
  "unquoted V =
     (list_all value_char V \<and>
      (case dropWhile is_space V of [] \<Rightarrow> True | a # as \<Rightarrow> \<not> is_quote a))"

definition no_terminator :: "jsstring \<Rightarrow> bool" where
  "no_terminator V = list_all (\<lambda>c. \<not> line_terminator c) V"

section \<open>Notions for the proofs\<close>

abbreviation st :: "nat option \<Rightarrow> jsstring \<Rightarrow> (nat \<Rightarrow> jsstring option) \<Rightarrow> mstate" where
  "st p r cs \<equiv> \<lparr>prev = p, rest = r, caps = cs\<rparr>"

abbreviation start :: "nat option \<Rightarrow> jsstring \<Rightarrow> mstate" where
  "start p s \<equiv> st p s (\<lambda>k. None)"

text \<open>\<open>^\<close> holds after the code unit \<open>p\<close>.\<close>

definition bol :: "nat option \<Rightarrow> bool" where
  "bol p = (case p of None \<Rightarrow> True | Some a \<Rightarrow> line_terminator a)"

text \<open>
  What a greedy star over a character class does on a run \<open>w\<close> of the class that ends
  before \<open>r\<close>: the continuation is tried after the whole run first, then after each
  shorter part of it.
\<close>

fun greedy ::
  "(mstate \<Rightarrow> mstate option) \<Rightarrow> nat option \<Rightarrow> jsstring \<Rightarrow> jsstring \<Rightarrow> (nat \<Rightarrow> jsstring option) \<Rightarrow> mstate option" where
  "greedy c p [] r cs = c (st p r cs)"
| "greedy c p (a # w) r cs =
     (case greedy c (Some a) w r cs of Some z \<Rightarrow> Some z | None \<Rightarrow> c (st p (a # w @ r) cs))"

definition lastp :: "nat option \<Rightarrow> jsstring \<Rightarrow> nat option" where
  "lastp p w = (if w = [] then p else Some (last w))"

text \<open>Replacing every pair \<open>a b\<close> by \<open>r\<close>, from left to right.\<close>

fun replace_pair :: "nat \<Rightarrow> nat \<Rightarrow> nat \<Rightarrow> jsstring \<Rightarrow> jsstring" where
  "replace_pair a b r (x # y # t) =
     (if x = a \<and> y = b then r # replace_pair a b r t else x # replace_pair a b r (y # t))"
| "replace_pair a b r [x] = [x]"
| "replace_pair a b r [] = []"

section \<open>Example inputs\<close>

text \<open>A host for the examples: the working directory is \<open>/app\<close>, and the given files exist.\<close>

definition example_host :: "(jsstring \<rightharpoonup> nat list) \<Rightarrow> (jsstring, jsstring) host" where
  "example_host fs =
     \<lparr>readFileSync = fs, resolve_cwd = (\<lambda>name. js ''/app/'' @ name), decode = (\<lambda>e bs. bs),
      stringify = (\<lambda>i. i), to_env = (\<lambda>v. v)\<rparr>"

definition test_env :: environment where
  "test_env = [js ''NODE_ENV'' \<mapsto> js ''test'', js ''HOME'' \<mapsto> js ''/root'']"

definition utf8_options :: options where
  "utf8_options =
     \<lparr>corePath = None, defaultsPathsMap = None, processEnvKey = None, parse_option = None,
      encoding = Some (js ''utf8'')\<rparr>"

definition two_issues :: "jsstring list" where
  "two_issues = [js ''{code: type, path: [A]}'', js ''{code: type, path: [B]}'']"

section \<open>The matcher, step by step\<close>

lemma m_Chars_Nil [simp]: "m (Chars P) (st p [] cs) c = None"
  by (simp add: m.simps)

lemma m_Chars_Cons [simp]:
  "m (Chars P) (st p (a # t) cs) c = (if P a then c (st (Some a) t cs) else None)"
  by (simp add: m.simps)

lemma m_Chr_Nil [simp]: "m (Chr a) (st p [] cs) c = None"
  by (simp add: Chr_def)

lemma m_Chr_Cons [simp]:
  "m (Chr b) (st p (a # t) cs) c = (if a = b then c (st (Some a) t cs) else None)"
  by (simp add: Chr_def)

lemma m_NotChr_Nil [simp]: "m (NotChr a) (st p [] cs) c = None"
  by (simp add: NotChr_def)

lemma m_NotChr_Cons [simp]:
  "m (NotChr b) (st p (a # t) cs) c = (if a \<noteq> b then c (st (Some a) t cs) else None)"
  by (simp add: NotChr_def)

lemma m_BOL [simp]: "m BOL (st p r cs) c = (if bol p then c (st p r cs) else None)"
  by (simp add: m.simps bol_def split: option.splits)

lemma m_EOL_Nil [simp]: "m EOL (st p [] cs) c = c (st p [] cs)"
  by (simp add: m.simps)

lemma m_EOL_Cons [simp]:
  "m EOL (st p (a # t) cs) c = (if line_terminator a then c (st p (a # t) cs) else None)"
  by (simp add: m.simps)

lemma m_Seq [simp]: "m (Seq r1 r2) x c = m r1 x (\<lambda>y. m r2 y c)"
  by (simp add: m.simps)

lemma m_Alt: "m (Alt r1 r2) x c = (case m r1 x c of Some z \<Rightarrow> Some z | None \<Rightarrow> m r2 x c)"
  by (simp add: m.simps)

lemma m_Alt_same [simp]: "m (Alt r r) x c = m r x c"
  by (simp add: m.simps split: option.splits)

lemma m_Alt_first: "m r1 x c = Some z \<Longrightarrow> m (Alt r1 r2) x c = Some z"
  by (simp add: m.simps)

lemma m_Alt_second: "m r1 x c = None \<Longrightarrow> m (Alt r1 r2) x c = m r2 x c"
  by (simp add: m.simps)

lemma m_Group [simp]:
  "m (Group n r) (st p s cs) c =
     m r (st p s cs) (\<lambda>y. c (y\<lparr>caps := (caps y)(n \<mapsto> take (length s - length (rest y)) s)\<rparr>))"
  by (simp add: m.simps)

lemma m_Opt_miss: "groups r = [] \<Longrightarrow> m r x (\<lambda>y. if length (rest y) < length (rest x) then c y else None) = None
    \<Longrightarrow> m (Opt r) x c = c x"
  by (simp add: m.simps)

lemma m_Opt_hit: "m r (uncapture (groups r) x) (\<lambda>y. if length (rest y) < length (rest x) then c y else None) = Some z
    \<Longrightarrow> m (Opt r) x c = Some z"
  by (simp add: m.simps)

lemma m_Star_lazy_first: "c x = Some z \<Longrightarrow> m (Star False r) x c = Some z"
  by (subst m.simps) simp

lemma star_greedy:
  "list_all P w \<Longrightarrow> r = [] \<or> \<not> P (hd r) \<Longrightarrow>
   m (Star True (Chars P)) (st p (w @ r) cs) c = greedy c p w r cs"
proof (induction w arbitrary: p)
  case Nil
  then have "m (Chars P) (st p r cs) d = None" for d
    by (cases r) auto
  then show ?case
    by (subst m.simps) simp
next
  case (Cons a w)
  then have "m (Star True (Chars P)) (st (Some a) (w @ r) cs) c = greedy c (Some a) w r cs"
    by simp
  with Cons.prems show ?case
    by (subst m.simps) (simp cong: option.case_cong)
qed

lemma greedy_first: "c (st (lastp p w) r cs) = Some z \<Longrightarrow> greedy c p w r cs = Some z"
proof (induction w arbitrary: p)
  case Nil
  then show ?case by (simp add: lastp_def)
next
  case (Cons a w)
  have "lastp (Some a) w = lastp p (a # w)"
    by (simp add: lastp_def)
  with Cons show ?case by simp
qed

lemma greedy_None:
  "(\<And>u v. w = u @ v \<Longrightarrow> c (st (lastp p u) (v @ r) cs) = None) \<Longrightarrow> greedy c p w r cs = None"
proof (induction w arbitrary: p)
  case Nil
  from Nil[of "[]" "[]"] show ?case by (simp add: lastp_def)
next
  case (Cons a w)
  have "greedy c (Some a) w r cs = None"
  proof (rule Cons.IH)
    fix u v assume "w = u @ v"
    then have "a # w = (a # u) @ v" by simp
    from Cons.prems[OF this] show "c (st (lastp (Some a) u) (v @ r) cs) = None"
      by (simp add: lastp_def split: if_splits)
  qed
  moreover from Cons.prems[of "[]" "a # w"] have "c (st p (a # w @ r) cs) = None"
    by (simp add: lastp_def)
  ultimately show ?case by simp
qed

lemma greedy_snoc:
  "c (st (Some a) r cs) = None \<Longrightarrow> greedy c p (w @ [a]) r cs = greedy c p w (a # r) cs"
  by (induction w arbitrary: p) (simp_all cong: option.case_cong)

lemma search_hit: "m re (start p s) Some = Some z \<Longrightarrow> search re p s = Some ([], z)"
  by (cases s) simp_all

lemma search_miss_Nil: "m re (start p []) Some = None \<Longrightarrow> search re p [] = None"
  by simp

lemma search_miss_Cons:
  "m re (start p (a # t)) Some = None \<Longrightarrow>
   search re p (a # t) = (case search re (Some a) t of None \<Rightarrow> None | Some (sk, z) \<Rightarrow> Some (a # sk, z))"
  by simp

lemma replace_all_hit:
  "m re (start p s) Some = Some z \<Longrightarrow> length (rest z) < length s \<Longrightarrow>
   replace_all re f p s = f z @ replace_all re f (prev z) (rest z)"
  by (subst replace_all.simps) (simp add: search_hit)

lemma replace_all_Nil: "m re (start p []) Some = None \<Longrightarrow> replace_all re f p [] = []"
  by (subst replace_all.simps) simp

lemma replace_all_skip:
  "m re (start p (a # t)) Some = None \<Longrightarrow> replace_all re f p (a # t) = a # replace_all re f (Some a) t"
  by (subst replace_all.simps, subst (2) replace_all.simps)
     (auto simp: search_miss_Cons split: option.splits)

lemma exec_loop_hit:
  "m LINE (start p s) Some = Some z \<Longrightarrow>
   exec_loop ob p s = exec_loop (js_set ob (capture 1 z) (unquote (capture 2 z))) (prev z) (rest z)"
  by (subst exec_loop.simps) (simp add: search_hit)

lemma exec_loop_Nil: "m LINE (start p []) Some = None \<Longrightarrow> exec_loop ob p [] = ob"
  by (subst exec_loop.simps) simp

lemma exec_loop_skip:
  "m LINE (start p (a # t)) Some = None \<Longrightarrow> exec_loop ob p (a # t) = exec_loop ob (Some a) t"
  by (subst exec_loop.simps, subst (2) exec_loop.simps)
     (auto simp: search_miss_Cons split: option.splits)

text \<open>Line endings\<close>

lemma CRLF_miss: "a \<noteq> 13 \<Longrightarrow> m CRLF (start p (a # t)) Some = None"
  by (simp add: CRLF_def)

lemma CRLF_Nil: "m CRLF (start p []) Some = None"
  by (simp add: CRLF_def)

lemma normalize_id: "13 \<notin> set s \<Longrightarrow> replace_all CRLF f p s = s"
  by (induction s arbitrary: p) (simp_all add: replace_all_Nil replace_all_skip CRLF_miss CRLF_Nil)

text \<open>Quotes\<close>

lemma quote_not_lt: "is_quote q \<Longrightarrow> \<not> line_terminator q"
  by (auto simp: is_quote_def line_terminator_def)

lemma quote_not_space: "is_quote q \<Longrightarrow> \<not> is_space q"
  by (auto simp: is_quote_def is_space_def)

lemma QUOTES_hit:
  assumes "is_quote q"
  shows "m QUOTES (start None (q # B @ [q])) Some = Some (st (Some q) [] ((\<lambda>k. None)(1 \<mapsto> [q], 2 \<mapsto> B)))"
proof -
  let ?any = "\<lambda>c. is_space c \<or> \<not> is_space c"
  let ?cs = "(\<lambda>k. None)(1 \<mapsto> [q])"
  let ?c = "\<lambda>y. m (Seq (Backref 1) EOL) (y\<lparr>caps := (caps y)(2 \<mapsto> take (length (B @ [q]) - length (rest y)) (B @ [q]))\<rparr>) Some"
  have star: "m (Star True (Chars ?any)) (st (Some q) ((B @ [q]) @ []) ?cs) ?c = greedy ?c (Some q) (B @ [q]) [] ?cs"
    by (rule star_greedy) (simp_all add: list_all_iff)
  have 1: "?c (st (Some q) [] ?cs) = None"
    by (simp add: m.simps)
  have 2: "?c (st (lastp (Some q) B) [q] ?cs) = Some (st (Some q) [] (?cs(2 \<mapsto> B)))"
    by (simp add: m.simps)
  have "greedy ?c (Some q) (B @ [q]) [] ?cs = Some (st (Some q) [] (?cs(2 \<mapsto> B)))"
    using greedy_snoc[of ?c q "[]" ?cs "Some q" B, OF 1] greedy_first[of ?c "Some q" B "[q]" ?cs, OF 2]
    by simp
  with star show ?thesis
    using assms by (simp add: QUOTES_def bol_def is_quote_def)
qed

lemma QUOTES_end: "is_quote q \<Longrightarrow> m QUOTES (start (Some q) []) Some = None"
  by (simp add: QUOTES_def bol_def quote_not_lt)

lemma strip_quotes: "is_quote q \<Longrightarrow> replace_all QUOTES (capture 2) None (q # B @ [q]) = B"
  by (simp add: replace_all_hit[OF QUOTES_hit] replace_all_Nil[OF QUOTES_end] capture_def)

lemma trim_quoted: "is_quote q \<Longrightarrow> js_trim (q # B @ [q]) = q # B @ [q]"
  by (simp add: js_trim_def quote_not_space)

lemma replace_all_pair:
  "replace_all (Seq (Chr a) (Chr b)) (\<lambda>z. [r]) p s = replace_pair a b r s"
proof (induction a b r s arbitrary: p rule: replace_pair.induct)
  case (1 a b r x y t)
  show ?case
  proof (cases "x = a \<and> y = b")
    case True
    then have "m (Seq (Chr a) (Chr b)) (start p (x # y # t)) Some = Some (st (Some y) t (\<lambda>k. None))"
      by simp
    from replace_all_hit[OF this, of "\<lambda>z. [r]"] 1(1)[OF True, of "Some y"] True show ?thesis
      by simp
  next
    case False
    then have "m (Seq (Chr a) (Chr b)) (start p (x # y # t)) Some = None"
      by auto
    from replace_all_skip[OF this, of "\<lambda>z. [r]"] 1(2)[OF False, of "Some x"] False show ?thesis
      by auto
  qed
next
  case (2 a b r x)
  have "m (Seq (Chr a) (Chr b)) (start p [x]) Some = None"
    by simp
  from replace_all_skip[OF this, of "\<lambda>z. [r]"] show ?case
    by (simp add: replace_all_Nil)
next
  case (3 a b r)
  show ?case
    by (simp add: replace_all_Nil)
qed

lemma replace_pair_Cons:
  "x \<noteq> a \<or> s = [] \<or> hd s \<noteq> b \<Longrightarrow> replace_pair a b r (x # s) = x # replace_pair a b r s"
  by (cases s) auto

lemma hd_replace_pair_n:
  "y \<noteq> 114 \<Longrightarrow> replace_pair 92 110 10 (y # t) \<noteq> [] \<and> hd (replace_pair 92 110 10 (y # t)) \<noteq> 114"
  by (cases t) auto

lemma expand_sequential:
  "replace_pair 92 114 13 (replace_pair 92 110 10 s) = expand_escapes s"
proof (induction s rule: expand_escapes.induct)
  case (1 x y t)
  consider (n) "x = 92" "y = 110" | (r) "x = 92" "y = 114" | (other) "\<not> (x = 92 \<and> y = 110)" "\<not> (x = 92 \<and> y = 114)"
    by blast
  then show ?case
  proof cases
    case n
    with 1 show ?thesis by (simp add: replace_pair_Cons)
  next
    case r
    then have "replace_pair 92 110 10 (x # y # t) = 92 # 114 # replace_pair 92 110 10 t"
      by (simp add: replace_pair_Cons)
    with r 1 show ?thesis by simp
  next
    case other
    then have a: "replace_pair 92 110 10 (x # y # t) = x # replace_pair 92 110 10 (y # t)"
      by simp
    have "x \<noteq> 92 \<or> replace_pair 92 110 10 (y # t) = [] \<or> hd (replace_pair 92 110 10 (y # t)) \<noteq> 114"
      using other hd_replace_pair_n[of y t] by (cases "x = 92") auto
    then have "replace_pair 92 114 13 (x # replace_pair 92 110 10 (y # t)) =
        x # replace_pair 92 114 13 (replace_pair 92 110 10 (y # t))"
      by (rule replace_pair_Cons)
    also have "\<dots> = x # expand_escapes (y # t)"
      using 1(3) other by simp
    finally show ?thesis
      using a other by auto
  qed
qed simp_all

lemma expand_code:
  "replace_all BACKSLASH_R (\<lambda>z. [13]) None (replace_all BACKSLASH_N (\<lambda>z. [10]) None s) = expand_escapes s"
  by (simp add: BACKSLASH_R_def BACKSLASH_N_def replace_all_pair expand_sequential)

lemma trim_quoted_ws: "is_quote q \<Longrightarrow> list_all is_space W \<Longrightarrow> js_trim (W @ q # B @ [q]) = q # B @ [q]"
proof -
  assume q: "is_quote q" and W: "list_all is_space W"
  have "dropWhile is_space (W @ q # B @ [q]) = q # B @ [q]"
    using q W by (simp add: dropWhile_append3 quote_not_space list_all_iff)
  then show ?thesis
    using q by (simp add: js_trim_def quote_not_space)
qed

lemma unquote_quoted:
  assumes "is_quote q" and "list_all is_space W"
  shows "unquote (W @ q # B @ [q]) = (if q = 34 then expand_escapes B else B)"
  using assms by (simp add: unquote_def trim_quoted_ws strip_quotes expand_code)

lemma expand_keeps_escaped_quote:
  "is_quote q \<Longrightarrow>
   expand_escapes (B1 @ 92 # q # B2) = expand_escapes B1 @ 92 # q # expand_escapes B2"
proof (induction B1 rule: expand_escapes.induct)
  case (1 x y t)
  then show ?case by (auto simp: is_quote_def)
next
  case (2 x)
  then show ?case by (cases B2) (auto simp: is_quote_def)
next
  case 3
  then show ?case by (cases B2) (auto simp: is_quote_def)
qed

lemma uncapture_st [simp]:
  "uncapture ns (st p r cs) = st p r (\<lambda>k. if k \<in> set ns then None else cs k)"
  by (simp add: uncapture_def cong: if_cong)

lemma clear_None: "cs n = None \<Longrightarrow> (\<lambda>k. if k = n then None else cs k) = cs"
  by auto

lemma star_ws_skip:
  "r = [] \<or> \<not> is_space (hd r) \<Longrightarrow> m (Star True ws) (st p r cs) c = c (st p r cs)"
  using star_greedy[of is_space "[]" r p cs c] by (simp add: ws_def)

lemma groups_comment [simp]: "groups comment_re = []"
  by (simp add: comment_re_def Chr_def)

lemma comment_miss: "r = [] \<or> hd r \<noteq> 35 \<Longrightarrow> m (Opt comment_re) (st p r cs) c = c (st p r cs)"
  by (cases r) (auto simp: m.simps(7) comment_re_def)

lemma line_end_Nil: "m line_end (st p [] cs) Some = Some (st p [] cs)"
  by (simp add: line_end_def star_ws_skip comment_miss)

lemma plus_greedy_first:
  assumes "w \<noteq> []" and "list_all P w" and "r = [] \<or> \<not> P (hd r)"
    and "c (st (Some (last w)) r cs) = Some z"
  shows "m (Plus True (Chars P)) (st p (w @ r) cs) c = Some z"
proof -
  from assms(1) obtain a w' where w: "w = a # w'"
    by (cases w) auto
  with assms(4) have "c (st (lastp (Some a) w') r cs) = Some z"
    by (cases "w' = []") (simp_all add: lastp_def)
  then have "greedy c (Some a) w' r cs = Some z"
    by (rule greedy_first)
  with assms(2,3) w show ?thesis
    by (simp add: Plus_def star_greedy)
qed

lemma plus_Nil: "m (Plus g (Chars P)) (st p [] cs) c = None"
  by (simp add: Plus_def)

lemma plus_miss: "\<not> P a \<Longrightarrow> m (Plus g (Chars P)) (st p (a # t) cs) c = None"
  by (simp add: Plus_def)

lemma quoted_tail_miss:
  assumes "is_quote q" and "list_all is_space v" and "r = [] \<or> hd r \<noteq> q"
  shows "m (Chr q) (st p (v @ r) cs) c = None"
proof (cases v)
  case Nil
  with assms(3) show ?thesis by (cases r) auto
next
  case (Cons a v')
  with assms(1,2) have "a \<noteq> q" using quote_not_space by auto
  with Cons show ?thesis by simp
qed

lemma quoted_miss0:
  assumes "is_quote q" and "list_all is_space W" and "r = [] \<or> (\<not> is_space (hd r) \<and> hd r \<noteq> q)"
  shows "m (quoted q) (st p (W @ r) cs) c = None"
proof -
  let ?c = "\<lambda>y. m (Chr q) y (\<lambda>y. m (Star True (Alt (Seq (Chr 92) (Chr q)) (NotChr q))) y (\<lambda>y. m (Chr q) y c))"
  have "greedy ?c p W r cs = None"
  proof (rule greedy_None)
    fix u v assume "W = u @ v"
    with assms(2) have v: "list_all is_space v" by simp
    from assms(3) have "r = [] \<or> hd r \<noteq> q" by auto
    from quoted_tail_miss[OF assms(1) v this]
    show "?c (st (lastp p u) (v @ r) cs) = None" .
  qed
  moreover have "m (quoted q) (st p (W @ r) cs) c = m (Star True (Chars is_space)) (st p (W @ r) cs) ?c"
    by (simp add: quoted_def ws_def)
  moreover have "m (Star True (Chars is_space)) (st p (W @ r) cs) ?c = greedy ?c p W r cs"
    using assms by (intro star_greedy) auto
  ultimately show ?thesis by simp
qed

lemma quoted_miss:
  assumes "is_quote q" and "dropWhile is_space V = [] \<or> hd (dropWhile is_space V) \<noteq> q"
  shows "m (quoted q) (st p V cs) c = None"
proof -
  have "dropWhile is_space V = [] \<or> (\<not> is_space (hd (dropWhile is_space V)) \<and> hd (dropWhile is_space V) \<noteq> q)"
    using assms(2) hd_dropWhile[of is_space V] by auto
  moreover have "list_all is_space (takeWhile is_space V)"
    by (simp add: list_all_iff) (meson set_takeWhileD)
  ultimately have "m (quoted q) (st p (takeWhile is_space V @ dropWhile is_space V) cs) c = None"
    using assms(1) by (intro quoted_miss0)
  then show ?thesis by simp
qed

text \<open>What a successful match of a starred class has consumed.\<close>

lemma star_chars_Some:
  "m (Star g (Chars P)) (st p s cs) c = Some z \<Longrightarrow>
   \<exists>U r p'. s = U @ r \<and> list_all P U \<and> c (st p' r cs) = Some z"
proof (induction s arbitrary: p)
  case Nil
  then have "c (st p [] cs) = Some z"
    by (subst (asm) m.simps) (simp split: if_splits option.splits)
  then show ?case by (intro exI[of _ "[]"] exI[of _ "[]"] exI[of _ p]) simp
next
  case (Cons a t)
  let ?d = "\<lambda>y. if length (rest y) < length (rest (st p (a # t) cs)) then m (Star g (Chars P)) y c else None"
  from Cons.prems have "c (st p (a # t) cs) = Some z \<or> m (Chars P) (st p (a # t) cs) ?d = Some z"
    by (subst (asm) m.simps) (auto simp del: m_Chars_Cons split: if_splits option.splits)
  then show ?case
  proof
    assume "c (st p (a # t) cs) = Some z"
    then show ?thesis by (intro exI[of _ "[]"] exI[of _ "a # t"] exI[of _ p]) simp
  next
    assume "m (Chars P) (st p (a # t) cs) ?d = Some z"
    then have a: "P a" and "m (Star g (Chars P)) (st (Some a) t cs) c = Some z"
      by (simp_all split: if_splits)
    from Cons.IH[OF this(2)] obtain U r p' where "t = U @ r" "list_all P U" "c (st p' r cs) = Some z"
      by blast
    with a show ?thesis
      by (intro exI[of _ "a # U"] exI[of _ r] exI[of _ p']) simp
  qed
qed

lemma m_Chr_Some:
  "m (Chr b) (st p s cs) c = Some z \<Longrightarrow> \<exists>t. s = b # t \<and> c (st (Some b) t cs) = Some z"
  by (cases s) (auto split: if_splits)

lemma export_Some:
  assumes "m (Seq export_kw (Plus True ws)) (st p s cs) c = Some z"
  shows "\<exists>U r p'. s = js ''export'' @ U @ r \<and> U \<noteq> [] \<and> list_all is_space U \<and> c (st p' r cs) = Some z"
proof -
  from assms have "m (Chr 101) (st p s cs) (\<lambda>y. m (Chr 120) y (\<lambda>y. m (Chr 112) y (\<lambda>y. m (Chr 111) y
      (\<lambda>y. m (Chr 114) y (\<lambda>y. m (Chr 116) y (\<lambda>y. m (Plus True ws) y c)))))) = Some z"
    by (simp add: export_kw_def)
  then obtain t1 where "s = 101 # t1" "m (Chr 120) (st (Some 101) t1 cs) (\<lambda>y. m (Chr 112) y (\<lambda>y. m (Chr 111) y
      (\<lambda>y. m (Chr 114) y (\<lambda>y. m (Chr 116) y (\<lambda>y. m (Plus True ws) y c))))) = Some z"
    by (blast dest: m_Chr_Some)
  moreover then obtain t2 where "t1 = 120 # t2" "m (Chr 112) (st (Some 120) t2 cs) (\<lambda>y. m (Chr 111) y
      (\<lambda>y. m (Chr 114) y (\<lambda>y. m (Chr 116) y (\<lambda>y. m (Plus True ws) y c)))) = Some z"
    by (blast dest: m_Chr_Some)
  moreover then obtain t3 where "t2 = 112 # t3" "m (Chr 111) (st (Some 112) t3 cs)
      (\<lambda>y. m (Chr 114) y (\<lambda>y. m (Chr 116) y (\<lambda>y. m (Plus True ws) y c))) = Some z"
    by (blast dest: m_Chr_Some)
  moreover then obtain t4 where "t3 = 111 # t4" "m (Chr 114) (st (Some 111) t4 cs)
      (\<lambda>y. m (Chr 116) y (\<lambda>y. m (Plus True ws) y c)) = Some z"
    by (blast dest: m_Chr_Some)
  moreover then obtain t5 where "t4 = 114 # t5" "m (Chr 116) (st (Some 114) t5 cs)
      (\<lambda>y. m (Plus True ws) y c) = Some z"
    by (blast dest: m_Chr_Some)
  moreover then obtain t6 where "t5 = 116 # t6" "m (Plus True ws) (st (Some 116) t6 cs) c = Some z"
    by (blast dest: m_Chr_Some)
  moreover then obtain a t7 where "t6 = a # t7" "is_space a" "m (Star True (Chars is_space)) (st (Some a) t7 cs) c = Some z"
    by (cases t6) (auto simp: Plus_def ws_def split: if_splits)
  moreover then obtain U r p' where "t7 = U @ r" "list_all is_space U" "c (st p' r cs) = Some z"
    by (blast dest: star_chars_Some)
  ultimately show ?thesis
    by (intro exI[of _ "a # U"] exI[of _ r] exI[of _ p']) (simp add: js_def)
qed

lemma key_not_space: "is_key_char a \<Longrightarrow> \<not> is_space a"
  by (auto simp: is_key_char_def is_word_def is_space_def)

lemma takeWhile_stop:
  "list_all P xs \<Longrightarrow> ys = [] \<or> \<not> P (hd ys) \<Longrightarrow> takeWhile P (xs @ ys) = xs"
  by (induction xs) (auto simp: takeWhile_eq_Nil_iff intro: takeWhile_eq_Nil_iff[THEN iffD2])

lemma export_key: "list_all is_key_char (js ''export'')"
  by (simp add: js_def is_key_char_def is_word_def)

lemma m_Opt_skip:
  "m r (uncapture (groups r) x) (\<lambda>y. if length (rest y) < length (rest x) then c y else None) = None
   \<Longrightarrow> m (Opt r) x c = c x"
  by (simp add: m.simps(7))

lemma key_miss: "r = [] \<or> \<not> is_key_char (hd r) \<Longrightarrow> m key_re (st p r cs) c = None"
  by (cases r) (auto simp: key_re_def plus_Nil plus_miss)

lemma groups_export [simp]: "groups export_kw = []"
  by (simp add: export_kw_def Chr_def)

lemma groups_Plus_ws [simp]: "groups (Plus g ws) = []"
  by (simp add: Plus_def ws_def)

lemma export_skip:
  assumes K: "K \<noteq> []" "list_all is_key_char K" and W: "list_all is_space W"
    and t: "t = [] \<or> (\<not> is_key_char (hd t) \<and> \<not> is_space (hd t))"
    and c: "\<And>p' r'. r' = [] \<or> \<not> is_key_char (hd r') \<Longrightarrow> c (st p' r' cs) = None"
  shows "m export_opt (st p (K @ W @ t) cs) c = c (st p (K @ W @ t) cs)"
proof -
  let ?x = "st p (K @ W @ t) cs"
  let ?d = "\<lambda>y. if length (rest y) < length (rest ?x) then c y else None"
  have n: "m (Seq export_kw (Plus True ws)) ?x ?d = None"
  proof (rule ccontr)
    assume "m (Seq export_kw (Plus True ws)) ?x ?d \<noteq> None"
    then obtain z where "m (Seq export_kw (Plus True ws)) ?x ?d = Some z"
      by auto
    from export_Some[OF this] obtain U r p' where
      eq: "K @ W @ t = js ''export'' @ U @ r" and U: "U \<noteq> []" "list_all is_space U"
      and d: "?d (st p' r cs) = Some z"
      by blast
    from d have "c (st p' r cs) = Some z"
      by (simp split: if_splits)
    with c[of r p'] have r: "r \<noteq> []" "is_key_char (hd r)"
      by auto
    have nk: "\<not> is_key_char (hd U)" "\<not> is_key_char (hd (U @ r))"
      using U key_not_space by (cases U; auto)+
    have "takeWhile is_key_char (K @ (W @ t)) = K"
    proof (rule takeWhile_stop[OF K(2)])
      show "W @ t = [] \<or> \<not> is_key_char (hd (W @ t))"
        using W t key_not_space by (cases W) auto
    qed
    moreover have "takeWhile is_key_char (js ''export'' @ (U @ r)) = js ''export''"
      using nk by (intro takeWhile_stop[OF export_key]) simp
    ultimately have "K = js ''export''"
      using eq by simp
    with eq have eq2: "W @ t = U @ r"
      by simp
    have "takeWhile is_space (W @ t) = W"
      using t by (intro takeWhile_stop[OF W]) auto
    moreover have "takeWhile is_space (U @ r) = U"
      using r key_not_space by (intro takeWhile_stop[OF U(2)]) auto
    ultimately have "W = U"
      using eq2 by simp
    with eq2 have "t = r"
      by simp
    with t r show False
      by auto
  qed
  show ?thesis
    unfolding export_opt_def by (rule m_Opt_skip) (use n in simp)
qed

lemma line_head:
  assumes p: "bol p" and K: "K \<noteq> []" "list_all is_key_char K" and W: "list_all is_space W"
    and t: "t = [] \<or> (\<not> is_key_char (hd t) \<and> \<not> is_space (hd t))"
    and rest: "m (Seq separator (Seq value_opt line_end)) (st (Some (last K)) (W @ t) ((\<lambda>k. None)(1 \<mapsto> K))) Some = Some z"
  shows "m LINE (start p (K @ W @ t)) Some = Some z"
proof -
  let ?cs = "\<lambda>k::nat. None :: jsstring option"
  let ?k = "\<lambda>y. m (Seq separator (Seq value_opt line_end)) y Some"
  let ?c = "\<lambda>y. m key_re y ?k"
  have hdK: "\<not> is_space (hd (K @ W @ t))"
    using K key_not_space by (cases K) auto
  have Wt: "W @ t = [] \<or> \<not> is_key_char (hd (W @ t))"
    using W t key_not_space by (cases W) auto
  have key: "m key_re (st p (K @ W @ t) ?cs) ?k = Some z"
    unfolding key_re_def m_Group
    using rest by (intro plus_greedy_first[OF K(1,2) Wt]) simp
  have "m export_opt (st p (K @ W @ t) ?cs) ?c = ?c (st p (K @ W @ t) ?cs)"
    by (rule export_skip[OF K W t]) (rule key_miss)
  with key have "m export_opt (st p (K @ W @ t) ?cs) ?c = Some z"
    by simp
  with p hdK show ?thesis
    by (simp add: LINE_def star_ws_skip)
qed

lemma LINE_Nil: "m LINE (start p []) Some = None"
proof -
  have "m (Opt (Seq export_kw (Plus True ws))) (start p []) (\<lambda>y. m key_re y c) =
          (\<lambda>y. m key_re y c) (start p [])" for c
    by (rule m_Opt_skip) (simp add: export_kw_def)
  then have "m export_opt (start p []) (\<lambda>y. m key_re y c) = None" for c
    by (simp add: export_opt_def key_miss)
  then show ?thesis
    by (simp add: LINE_def star_ws_skip)
qed

lemma space_not_61: "\<not> is_space 61" and space_not_58: "\<not> is_space 58"
  by (simp_all add: is_space_def)

lemma sep_equals:
  assumes "list_all is_space W" and "c (st (Some 61) V cs) = Some z"
  shows "m separator (st p (W @ 61 # V) cs) c = Some z"
proof -
  let ?c = "\<lambda>y. m (Chr 61) y (\<lambda>y. m (Star False ws) y c)"
  have "?c (st (lastp p W) (61 # V) cs) = Some z"
    using assms(2) by (simp add: m_Star_lazy_first)
  then have "greedy ?c p W (61 # V) cs = Some z"
    by (rule greedy_first)
  then have "m (Seq (Star True ws) (Seq (Chr 61) (Star False ws))) (st p (W @ 61 # V) cs) c = Some z"
    using assms(1) by (simp add: ws_def star_greedy space_not_61)
  then show ?thesis
    unfolding separator_def by (rule m_Alt_first)
qed

lemma sep_colon:
  assumes "is_space w" and "c (st (Some w) V cs) = Some z"
  shows "m separator (st p (58 # w # V) cs) c = Some z"
proof -
  have "m (Seq (Star True ws) (Seq (Chr 61) (Star False ws))) (st p (58 # w # V) cs) c = None"
    by (simp add: star_ws_skip space_not_58)
  moreover have "m (Seq (Chr 58) (Plus False ws)) (st p (58 # w # V) cs) c = Some z"
    using assms by (simp add: Plus_def ws_def m_Star_lazy_first)
  ultimately show ?thesis
    by (simp add: separator_def m_Alt_second)
qed

lemma quote_not_92: "is_quote q \<Longrightarrow> q \<noteq> 92"
  by (auto simp: is_quote_def)

lemma groups_Chr [simp]: "groups (Chr a) = []" "groups (NotChr a) = []"
  by (simp_all add: Chr_def NotChr_def)

lemma groups_value [simp]: "groups value_re = []"
  by (simp add: value_re_def quoted_def Plus_def ws_def Chr_def NotChr_def)

lemma lastp_Nil [simp]: "lastp p [] = p"
  by (simp add: lastp_def)

lemma lastp_Cons [simp]: "lastp p (a # w) = lastp (Some a) w"
  by (simp add: lastp_def)

lemma value_re_last:
  assumes "\<And>q. is_quote q \<Longrightarrow> m (quoted q) x c = None"
  shows "m value_re x c = m (Plus True (Chars value_char)) x c"
proof -
  have "m (quoted 39) x c = None" "m (quoted 34) x c = None" "m (quoted 96) x c = None"
    by (rule assms, simp add: is_quote_def)+
  then show ?thesis
    by (simp add: value_re_def m_Alt_second)
qed

lemma value_re_quoted:
  assumes "is_quote q" and "m (quoted q) x c = Some z"
    and "\<And>q'. is_quote q' \<Longrightarrow> q' \<noteq> q \<Longrightarrow> m (quoted q') x c = None"
  shows "m value_re x c = Some z"
proof -
  consider "q = 39" | "q = 34" | "q = 96"
    using assms(1) by (auto simp: is_quote_def)
  then show ?thesis
  proof cases
    case 1
    with assms(2) show ?thesis
      by (simp add: value_re_def m_Alt_first)
  next
    case 2
    have "m (quoted 39) x c = None"
      by (rule assms(3)) (simp_all add: is_quote_def 2)
    with 2 assms(2) show ?thesis
      by (simp add: value_re_def m_Alt_second m_Alt_first)
  next
    case 3
    have "m (quoted 39) x c = None" "m (quoted 34) x c = None"
      by (rule assms(3), simp_all add: is_quote_def 3)+
    with 3 assms(2) show ?thesis
      by (simp add: value_re_def m_Alt_second m_Alt_first)
  qed
qed

text \<open>The value is missing.\<close>

lemma value_empty:
  assumes "cs 2 = None"
  shows "m (Seq value_opt line_end) (st p [] cs) Some = Some (st p [] cs)"
proof -
  have "m value_re (st p [] cs') d = None" for cs' d
    by (subst value_re_last) (simp_all add: quoted_miss plus_Nil)
  then have "m (Opt (Group 2 value_re)) (st p [] cs) c = c (st p [] cs)" for c
    by (intro m_Opt_skip) simp
  then show ?thesis
    by (simp add: value_opt_def line_end_Nil)
qed

text \<open>An unquoted value.\<close>

lemma value_unquoted:
  assumes "V \<noteq> []" and "unquoted V" and "cs 2 = None"
  shows "m (Seq value_opt line_end) (st p V cs) Some = Some (st (Some (last V)) [] (cs(2 \<mapsto> V)))"
proof -
  let ?c = "\<lambda>y. m line_end y Some"
  let ?d = "\<lambda>y. if length (rest y) < length V then ?c y else None"
  let ?e = "\<lambda>y. ?d (y\<lparr>caps := (caps y)(2 \<mapsto> take (length V - length (rest y)) V)\<rparr>)"
  have nq: "dropWhile is_space V = [] \<or> hd (dropWhile is_space V) \<noteq> q" if "is_quote q" for q
    using assms(2) that by (auto simp: unquoted_def split: list.splits)
  have "?e (st (Some (last V)) [] cs) = Some (st (Some (last V)) [] (cs(2 \<mapsto> V)))"
    using assms(1) by (simp add: line_end_Nil)
  then have "m (Plus True (Chars value_char)) (st p (V @ []) cs) ?e = Some (st (Some (last V)) [] (cs(2 \<mapsto> V)))"
    using assms(1,2) by (intro plus_greedy_first) (simp_all add: unquoted_def)
  moreover have "m (quoted q) (st p V cs) ?e = None" if "is_quote q" for q
    using that nq by (intro quoted_miss)
  ultimately have "m value_re (st p V cs) ?e = Some (st (Some (last V)) [] (cs(2 \<mapsto> V)))"
    by (simp add: value_re_last)
  then have "m (Group 2 value_re) (uncapture (groups (Group 2 value_re)) (st p V cs))
        (\<lambda>y. if length (rest y) < length (rest (st p V cs)) then ?c y else None)
      = Some (st (Some (last V)) [] (cs(2 \<mapsto> V)))"
    using assms(3) by (simp add: clear_None)
  then have "m (Opt (Group 2 value_re)) (st p V cs) ?c = Some (st (Some (last V)) [] (cs(2 \<mapsto> V)))"
    by (rule m_Opt_hit)
  then show ?thesis
    by (simp add: value_opt_def)
qed

text \<open>A quoted value.\<close>

lemma body_star:
  "is_quote q \<Longrightarrow> quoted_body q B \<Longrightarrow> c (st (lastp p B) (q # r) cs) = Some z \<Longrightarrow>
    m (Star True (Alt (Seq (Chr 92) (Chr q)) (NotChr q))) (st p (B @ q # r) cs) c = Some z"
proof (induction q B arbitrary: p rule: quoted_body.induct)
  case (1 q)
  have "m (Alt (Seq (Chr 92) (Chr q)) (NotChr q)) (st p (q # r) cs) d = None" for d
    using quote_not_92[OF 1(1)] by (simp add: m_Alt)
  with 1 show ?case
    by (subst m.simps) simp
next
  case (2 q a)
  have end': "m (Alt (Seq (Chr 92) (Chr q)) (NotChr q)) (st (Some a) (q # r) cs) d = None" for d
    using quote_not_92[OF 2(1)] by (simp add: m_Alt)
  have "m (Star True (Alt (Seq (Chr 92) (Chr q)) (NotChr q))) (st (Some a) (q # r) cs) c = Some z"
    using 2 by (subst m.simps) (simp add: end')
  with 2 show ?case
    by (subst m.simps) (simp add: m_Alt)
next
  case (3 q a b t)
  show ?case
  proof (cases "a = 92 \<and> b = q")
    case True
    with 3 have "m (Star True (Alt (Seq (Chr 92) (Chr q)) (NotChr q))) (st (Some b) (t @ q # r) cs) c = Some z"
      by simp
    with True show ?thesis
      by (subst m.simps) (simp add: m_Alt)
  next
    case False
    with 3 have a: "a \<noteq> q" and "m (Star True (Alt (Seq (Chr 92) (Chr q)) (NotChr q))) (st (Some a) ((b # t) @ q # r) cs) c = Some z"
      by simp_all
    with False show ?thesis
      by (subst m.simps) (auto simp: m_Alt)
  qed
qed

lemma quoted_hit:
  assumes "is_quote q" and "quoted_body q B" and "c (st (Some q) r cs) = Some z"
  shows "m (quoted q) (st p (q # B @ q # r) cs) c = Some z"
proof -
  have "m (Star True (Alt (Seq (Chr 92) (Chr q)) (NotChr q))) (st (Some q) (B @ q # r) cs) (\<lambda>y. m (Chr q) y c) = Some z"
    using assms(3) by (intro body_star[OF assms(1,2)]) (simp add: lastp_def)
  then show ?thesis
    using assms(1) by (simp add: quoted_def star_ws_skip quote_not_space)
qed

lemma value_quoted:
  assumes "is_quote q" and "quoted_body q B" and "cs 2 = None"
  shows "m (Seq value_opt line_end) (st p (q # B @ [q]) cs) Some
       = Some (st (Some q) [] (cs(2 \<mapsto> q # B @ [q])))"
proof -
  let ?V = "q # B @ [q]"
  let ?z = "st (Some q) [] (cs(2 \<mapsto> ?V))"
  let ?c = "\<lambda>y. m line_end y Some"
  let ?d = "\<lambda>y. if length (rest y) < length ?V then ?c y else None"
  let ?e = "\<lambda>y. ?d (y\<lparr>caps := (caps y)(2 \<mapsto> take (length ?V - length (rest y)) ?V)\<rparr>)"
  have e: "?e (st (Some q) [] cs) = Some ?z"
    by (simp add: line_end_Nil)
  have hit: "m (quoted q) (st p ?V cs) ?e = Some ?z"
    using quoted_hit[OF assms(1,2), of ?e "[]" cs ?z p] e by simp
  have miss: "m (quoted q') (st p ?V cs) ?e = None" if "is_quote q'" "q' \<noteq> q" for q'
    using that assms(1) by (intro quoted_miss) (simp_all add: quote_not_space)
  have "m value_re (st p ?V cs) ?e = Some ?z"
    using assms(1) hit miss by (rule value_re_quoted)
  then have "m (Group 2 value_re) (uncapture (groups (Group 2 value_re)) (st p ?V cs))
        (\<lambda>y. if length (rest y) < length (rest (st p ?V cs)) then ?c y else None) = Some ?z"
    using assms(3) by (simp add: clear_None)
  then have "m (Opt (Group 2 value_re)) (st p ?V cs) ?c = Some ?z"
    by (rule m_Opt_hit)
  then show ?thesis
    by (simp add: value_opt_def)
qed

lemma key_not_13: "list_all is_key_char K \<Longrightarrow> 13 \<notin> set K"
  by (auto simp: list_all_iff is_key_char_def is_word_def)

lemma parse_one_line:
  assumes "m LINE (start None s) Some = Some z" and "rest z = []" and "13 \<notin> set s"
  shows "parse dec (Text s) = js_set Map.empty (capture 1 z) (unquote (capture 2 z))"
  using assms by (simp add: parse_def normalize_id exec_loop_hit exec_loop_Nil LINE_Nil)

lemma QUOTES_Nil: "m QUOTES (start p []) Some = None"
  by (simp add: QUOTES_def)

lemma unquote_Nil: "unquote [] = []"
  by (simp add: unquote_def js_trim_def replace_all_Nil QUOTES_Nil)

lemma bol_None [simp]: "bol None"
  by (simp add: bol_def)

lemma key_equals_empty:
  assumes "K \<noteq> []" and "list_all is_key_char K"
  shows "parse dec (Text (K @ [61])) = js_set Map.empty K []"
proof -
  let ?cs = "(\<lambda>k. None)(1 \<mapsto> K)"
  let ?z = "st (Some 61) [] ?cs"
  have "m (Seq value_opt line_end) (st (Some 61) [] ?cs) Some = Some ?z"
    by (rule value_empty) simp
  then have "m separator (st (Some (last K)) ([] @ 61 # []) ?cs) (\<lambda>y. m (Seq value_opt line_end) y Some) = Some ?z"
    by (intro sep_equals) simp_all
  then have "m LINE (start None (K @ [] @ [61])) Some = Some ?z"
    using assms by (intro line_head) (simp_all add: is_key_char_def is_word_def is_space_def)
  then have "parse dec (Text (K @ [61])) = js_set Map.empty (capture 1 ?z) (unquote (capture 2 ?z))"
    using key_not_13[OF assms(2)] by (intro parse_one_line) simp_all
  then show ?thesis
    by (simp add: capture_def unquote_Nil)
qed

lemma LINE_not_bol: "\<not> bol p \<Longrightarrow> m LINE (start p s) Some = None"
  by (simp add: LINE_def)

text \<open>Unquoted values are stored trimmed.\<close>

lemma QUOTES_noop:
  "list_all (\<lambda>c. \<not> line_terminator c) s \<Longrightarrow> (bol p \<longrightarrow> s = [] \<or> \<not> is_quote (hd s)) \<Longrightarrow>
   replace_all QUOTES f p s = s"
proof (induction s arbitrary: p)
  case Nil
  show ?case by (simp add: replace_all_Nil QUOTES_Nil)
next
  case (Cons a t)
  have "m QUOTES (start p (a # t)) Some = None"
    using Cons.prems(2) by (auto simp: QUOTES_def is_quote_def)
  moreover have "replace_all QUOTES f (Some a) t = t"
    using Cons.prems(1) by (intro Cons.IH) (simp_all add: bol_def)
  ultimately show ?case
    by (simp add: replace_all_skip)
qed

lemma hd_trim:
  assumes "dropWhile is_space V = a # D"
  shows "\<exists>X. js_trim V = a # X"
proof -
  have a: "\<not> is_space a"
    using assms hd_dropWhile[of is_space V] by simp
  then have "dropWhile is_space (rev D @ [a]) = dropWhile is_space (rev D) @ [a] \<or> dropWhile is_space (rev D @ [a]) = [a]"
    by (simp add: dropWhile_append)
  then obtain Y where "dropWhile is_space (rev D @ [a]) = Y @ [a]"
    by (metis append_Nil)
  then show ?thesis
    using assms by (simp add: js_trim_def)
qed

lemma set_trim: "set (js_trim V) \<subseteq> set V"
proof -
  have "set (js_trim V) \<subseteq> set (rev (dropWhile is_space V))"
    unfolding js_trim_def set_rev by (auto dest: set_dropWhileD)
  also have "\<dots> \<subseteq> set V"
    by (auto dest: set_dropWhileD)
  finally show ?thesis .
qed

lemma unquote_unquoted:
  assumes "unquoted V" and "no_terminator V"
  shows "unquote V = js_trim V"
proof -
  have nt: "list_all (\<lambda>c. \<not> line_terminator c) (js_trim V)"
    using assms(2) set_trim[of V] by (auto simp: list_all_iff no_terminator_def)
  have hd: "js_trim V = [] \<or> (\<exists>a X. js_trim V = a # X \<and> \<not> is_quote a)"
  proof (cases "dropWhile is_space V")
    case Nil
    show ?thesis unfolding js_trim_def Nil by simp
  next
    case (Cons a D)
    with assms(1) have "\<not> is_quote a" by (simp add: unquoted_def)
    with hd_trim[OF Cons] show ?thesis by auto
  qed
  then have "replace_all QUOTES (capture 2) None (js_trim V) = js_trim V"
    by (intro QUOTES_noop[OF nt]) auto
  moreover have "(case js_trim V of [] \<Rightarrow> None | a # as \<Rightarrow> Some a) \<noteq> Some 34"
    using hd by (auto simp: is_quote_def)
  ultimately show ?thesis
    by (simp add: unquote_def)
qed

lemma line_value:
  assumes "unquoted V" and "cs 2 = None"
  shows "\<exists>z. m (Seq value_opt line_end) (st p V cs) Some = Some z \<and> rest z = [] \<and>
           capture 1 z = (case cs 1 of None \<Rightarrow> [] | Some k \<Rightarrow> k) \<and> capture 2 z = V"
proof (cases "V = []")
  case True
  with value_empty[where cs = cs and p = p, OF assms(2)] assms(2) show ?thesis
    by (simp add: capture_def)
next
  case False
  with value_unquoted[where cs = cs and p = p and V = V, OF False assms] show ?thesis
    by (simp add: capture_def)
qed

lemma unquoted_not_13: "unquoted V \<Longrightarrow> 13 \<notin> set V"
  by (auto simp: unquoted_def list_all_iff value_char_def)

lemma key_equals_value:
  assumes "K \<noteq> []" and "list_all is_key_char K" and "list_all is_space W" and "13 \<notin> set W"
    and "unquoted V" and "no_terminator V"
  shows "parse dec (Text (K @ W @ 61 # V)) = js_set Map.empty K (js_trim V)"
proof -
  let ?cs = "(\<lambda>k. None)(1 \<mapsto> K)"
  from line_value[OF assms(5), of ?cs "Some 61"] obtain z where
    z: "m (Seq value_opt line_end) (st (Some 61) V ?cs) Some = Some z" "rest z = []"
       "capture 1 z = K" "capture 2 z = V"
    by auto
  from z(1) have "m separator (st (Some (last K)) (W @ 61 # V) ?cs) (\<lambda>y. m (Seq value_opt line_end) y Some) = Some z"
    using assms(3) by (intro sep_equals)
  then have "m LINE (start None (K @ W @ 61 # V)) Some = Some z"
    using assms by (intro line_head) (simp_all add: is_key_char_def is_word_def is_space_def)
  then have "parse dec (Text (K @ W @ 61 # V)) = js_set Map.empty (capture 1 z) (unquote (capture 2 z))"
    using z(2) key_not_13[OF assms(2)] assms(4) unquoted_not_13[OF assms(5)]
    by (intro parse_one_line) simp_all
  then show ?thesis
    using z assms by (simp add: unquote_unquoted)
qed

lemma key_colon_value:
  assumes "K \<noteq> []" and "list_all is_key_char K" and "is_space w" and "w \<noteq> 13"
    and "unquoted V" and "no_terminator V"
  shows "parse dec (Text (K @ 58 # w # V)) = js_set Map.empty K (js_trim V)"
proof -
  let ?cs = "(\<lambda>k. None)(1 \<mapsto> K)"
  from line_value[OF assms(5), of ?cs "Some w"] obtain z where
    z: "m (Seq value_opt line_end) (st (Some w) V ?cs) Some = Some z" "rest z = []"
       "capture 1 z = K" "capture 2 z = V"
    by auto
  from z(1) have "m separator (st (Some (last K)) ([] @ 58 # w # V) ?cs) (\<lambda>y. m (Seq value_opt line_end) y Some) = Some z"
    using assms(3) by (simp add: sep_colon)
  then have "m LINE (start None (K @ [] @ 58 # w # V)) Some = Some z"
    using assms by (intro line_head) (simp_all add: is_key_char_def is_word_def is_space_def)
  then have "parse dec (Text (K @ 58 # w # V)) = js_set Map.empty (capture 1 z) (unquote (capture 2 z))"
    using z(2) key_not_13[OF assms(2)] assms(4) unquoted_not_13[OF assms(5)]
    by (intro parse_one_line) simp_all
  then show ?thesis
    using z assms by (simp add: unquote_unquoted)
qed

lemma key_equals_quoted:
  assumes "K \<noteq> []" and "list_all is_key_char K" and "is_quote q" and "quoted_body q B" and "13 \<notin> set B"
  shows "parse dec (Text (K @ 61 # q # B @ [q])) =
           js_set Map.empty K (if q = 34 then expand_escapes B else B)"
proof -
  let ?cs = "(\<lambda>k. None)(1 \<mapsto> K)"
  let ?V = "q # B @ [q]"
  let ?z = "st (Some q) [] (?cs(2 \<mapsto> ?V))"
  have "m (Seq value_opt line_end) (st (Some 61) ?V ?cs) Some = Some ?z"
    using assms(3,4) by (intro value_quoted) simp_all
  then have "m separator (st (Some (last K)) ([] @ 61 # ?V) ?cs) (\<lambda>y. m (Seq value_opt line_end) y Some) = Some ?z"
    by (intro sep_equals) simp_all
  then have "m LINE (start None (K @ [] @ 61 # ?V)) Some = Some ?z"
    using assms by (intro line_head) (simp_all add: is_key_char_def is_word_def is_space_def)
  then have "parse dec (Text (K @ 61 # ?V)) = js_set Map.empty (capture 1 ?z) (unquote (capture 2 ?z))"
    using key_not_13[OF assms(2)] assms(3,5)
    by (intro parse_one_line) (auto simp: is_quote_def)
  then show ?thesis
    using unquote_quoted[OF assms(3), of "[]" B] by (simp add: capture_def)
qed

lemma exec_loop_entries:
  "exec_loop ob b s = fold (\<lambda>(k, v) ob. js_set ob k v) (entries b s) ob"
proof (induction ob b s rule: exec_loop.induct)
  case (1 ob b s)
  show ?case
  proof (cases "search LINE b s")
    case None
    then show ?thesis
      by (simp add: exec_loop.simps[of ob b s] entries.simps[of b s])
  next
    case (Some r)
    obtain sk z where r: "r = (sk, z)" by (cases r)
    have "exec_loop ob b s = exec_loop (js_set ob (capture 1 z) (unquote (capture 2 z))) (prev z) (rest z)"
      by (simp add: exec_loop.simps[of ob b s] Some r)
    also have "\<dots> = fold (\<lambda>(k, v) ob. js_set ob k v) (entries (prev z) (rest z))
        (js_set ob (capture 1 z) (unquote (capture 2 z)))"
      using Some r by (intro 1) simp_all
    also have "\<dots> = fold (\<lambda>(k, v) ob. js_set ob k v) (entries b s) ob"
      by (simp add: entries.simps[of b s] Some r)
    finally show ?thesis .
  qed
qed

lemma fold_js_set:
  "k \<noteq> proto_key \<Longrightarrow>
   fold (\<lambda>(k, v) ob. js_set ob k v) es ob k = (case map_of (rev es) k of None \<Rightarrow> ob k | Some v \<Rightarrow> Some v)"
proof (induction es arbitrary: ob)
  case Nil
  show ?case by simp
next
  case (Cons e es)
  obtain k' v' where e: "e = (k', v')" by (cases e)
  show ?case
    using Cons.IH[OF Cons.prems, of "js_set ob k' v'"] Cons.prems
    by (auto simp: e js_set_def map_add_def split: option.splits)
qed

lemma fold_js_set_proto:
  "ob proto_key = None \<Longrightarrow> fold (\<lambda>(k, v) ob. js_set ob k v) es ob proto_key = None"
  by (induction es arbitrary: ob) (auto simp: js_set_def)

lemma last_match_wins:
  "k \<noteq> proto_key \<Longrightarrow>
   parse dec src k = map_of (rev (entries None (replace_all CRLF (\<lambda>z. [10]) None (toString dec src)))) k"
  by (simp add: parse_def exec_loop_entries fold_js_set split: option.splits)

lemma parse_proto_None: "parse dec src proto_key = None"
  by (simp add: parse_def exec_loop_entries fold_js_set_proto)

lemma js_set_empty: "K \<noteq> proto_key \<Longrightarrow> js_set Map.empty K v = [K \<mapsto> v]"
  by (simp add: js_set_def)

lemma js_set_proto: "js_set Map.empty proto_key v = Map.empty"
  by (simp add: js_set_def)

lemma exec_loop_no_bol: "\<not> bol p \<Longrightarrow> no_terminator s \<Longrightarrow> exec_loop ob p s = ob"
proof (induction s arbitrary: p)
  case Nil
  show ?case by (simp add: exec_loop_Nil LINE_Nil)
next
  case (Cons a t)
  have "exec_loop ob p (a # t) = exec_loop ob (Some a) t"
    using Cons.prems(1) by (simp add: exec_loop_skip LINE_not_bol)
  also have "\<dots> = ob"
    using Cons.prems(2) by (intro Cons.IH) (simp_all add: bol_def no_terminator_def)
  finally show ?case .
qed

lemma parse_no_match:
  assumes "m LINE (start None (a # t)) Some = None" and "no_terminator (a # t)"
  shows "parse dec (Text (a # t)) = Map.empty"
proof -
  have "13 \<notin> set (a # t)"
    using assms(2) by (auto simp: no_terminator_def list_all_iff line_terminator_def)
  then have "parse dec (Text (a # t)) = exec_loop Map.empty None (a # t)"
    by (simp add: parse_def normalize_id)
  also have "\<dots> = exec_loop Map.empty (Some a) t"
    using assms(1) by (rule exec_loop_skip)
  also have "\<dots> = Map.empty"
    using assms(2) by (intro exec_loop_no_bol) (simp_all add: bol_def no_terminator_def)
  finally show ?thesis .
qed

text \<open>The equations that evaluate the matcher and the loop on a concrete source.\<close>

lemmas line_eval = m.simps(6,7) bol_def Plus_def ws_def LINE_def export_opt_def key_re_def value_opt_def
  line_end_def separator_def value_re_def quoted_def comment_re_def export_kw_def is_space_def is_word_def
  is_key_char_def line_terminator_def value_char_def is_quote_def js_def uncapture_def m_Alt

lemmas entries_eval = entries.simps unquote_def capture_def js_trim_def replace_all.simps QUOTES_def
  BACKSLASH_N_def BACKSLASH_R_def Chr_def m.simps

section \<open>The pipeline of loadEnv\<close>

lemma sublist_prepend: "sublist xs ys \<Longrightarrow> sublist xs (ps @ ys)"
  by (metis append.assoc sublist_def)

lemma sublist_join_lines: "x \<in> set xs \<Longrightarrow> sublist x (join_lines xs)"
proof (induction xs rule: join_lines.induct)
  case 1
  then show ?case by simp
next
  case (2 x')
  then show ?case by simp
next
  case (3 x' y ys)
  show ?case
  proof (cases "x = x'")
    case True
    then show ?thesis by (simp add: sublist_append_rightI)
  next
    case False
    with 3 have "sublist x (join_lines (y # ys))" by simp
    then have "sublist x ((x' @ [10]) @ join_lines (y # ys))"
      by (rule sublist_prepend)
    then show ?thesis by simp
  qed
qed

text \<open>The equations that evaluate a lookup or an assignment on \<open>process.env\<close>.\<close>

lemmas env_eval = process_env_get_def process_env_set_def env_name_def Let_def high_surrogate_def
  low_surrogate_def object_prototype_def member_text_def js_def

lemma parse_empty: "parse dec (Text []) = Map.empty"
  by (simp add: parse_def replace_all_Nil CRLF_Nil exec_loop_Nil LINE_Nil)

lemma env_assign_names:
  assumes "distinct (map fst v)" and "\<forall>k \<in> set (map fst v). env_name k = Some k"
  shows "env_assign str env v k = (case map_of v k of None \<Rightarrow> env k | Some a \<Rightarrow> Some (str a))"
  using assms
proof (induction v arbitrary: env)
  case Nil
  show ?case by (simp add: env_assign_def)
next
  case (Cons x t)
  obtain k0 a0 where x: "x = (k0, a0)"
    by (cases x)
  have name: "env_name k0 = Some k0"
    using Cons.prems(2) x by simp
  have "env_assign str env (x # t) k = env_assign str (env(k0 \<mapsto> str a0)) t k"
    by (simp add: env_assign_def x process_env_set_def name)
  also have "\<dots> = (case map_of t k of None \<Rightarrow> (env(k0 \<mapsto> str a0)) k | Some a \<Rightarrow> Some (str a))"
    using Cons.prems by (intro Cons.IH) simp_all
  also have "\<dots> = (case map_of (x # t) k of None \<Rightarrow> env k | Some a \<Rightarrow> Some (str a))"
  proof (cases "k = k0")
    case True
    have "map_of t k0 = None"
      using Cons.prems(1) x by (simp add: map_of_eq_None_iff)
    with True show ?thesis
      by (simp add: x)
  next
    case False
    then show ?thesis
      by (simp add: x split: option.splits)
  qed
  finally show ?case .
qed

text \<open>
  C1. Merge precedence. The merged mapping is \<open>loadedEnvVariables\<close>, the core source is
  what the effective parser returns for the core file, the defaults source what it
  returns for the defaults file. A key bound in both sources is bound to the core
  source's value (whatever it is, the empty string included); a key the core source
  does not bind is bound as in the defaults source; a key bound in the core source
  alone is bound to its value there (no such property is created for \<open>__proto__\<close>);
  and the merge binds no key that neither source binds.
\<close>

theorem merge_precedence:
  assumes "core = actualParse h opt (or_empty coreEnvFileBuffer)"
    and "defaults = actualParse h opt (or_empty defaultsEnvFileBuffer)"
    and "merged = loadedEnvVariables h opt coreEnvFileBuffer defaultsEnvFileBuffer"
  shows "(\<forall>k v. core k = Some v \<and> defaults k \<noteq> None \<longrightarrow> merged k = Some v)
       \<and> (\<forall>k. core k = None \<longrightarrow> merged k = defaults k)
       \<and> (\<forall>k v. core k = Some v \<and> k \<noteq> proto_key \<longrightarrow> merged k = Some v)
       \<and> dom merged \<subseteq> dom core \<union> dom defaults"
  using assms
  by (auto simp: loadedEnvVariables_def object_assign_def split: option.splits if_splits)

theorem merge_precedence_witness:
  "loadedEnvVariables (example_host Map.empty) None
     (Some (Text (js ''A=''))) (Some (Text (js ''A=x''))) (js ''A'') = Some []
   \<and> loadedEnvVariables (example_host Map.empty) None
     (Some (Text (js ''A=''))) (Some (Text (js ''B=y''))) (js ''B'') = Some (js ''y'')"
proof -
  let ?h = "example_host Map.empty :: (jsstring, jsstring) host"
  have k: "[65] \<noteq> []" "list_all is_key_char [65]" "[66] \<noteq> []" "list_all is_key_char [66]"
    by (simp_all add: is_key_char_def is_word_def)
  have v: "unquoted [120]" "no_terminator [120]" "unquoted [121]" "no_terminator [121]"
    by (simp_all add: unquoted_def value_char_def is_space_def is_quote_def no_terminator_def
        line_terminator_def)
  have "parse (decode ?h) (Text ([65] @ [61])) = js_set Map.empty [65] []"
    using k(1,2) by (rule key_equals_empty)
  then have c: "actualParse ?h None (or_empty (Some (Text (js ''A='')))) = [js ''A'' \<mapsto> []]"
    by (simp add: actualParse_def opt_field_def js_def js_set_def proto_key_def)
  have "parse (decode ?h) (Text ([65] @ [] @ 61 # [120])) = js_set Map.empty [65] (js_trim [120])"
    using k(1,2) v(1,2) by (intro key_equals_value) simp_all
  then have d1: "actualParse ?h None (or_empty (Some (Text (js ''A=x'')))) = [js ''A'' \<mapsto> js ''x'']"
    by (simp add: actualParse_def opt_field_def js_def js_set_def proto_key_def js_trim_def is_space_def)
  have "parse (decode ?h) (Text ([66] @ [] @ 61 # [121])) = js_set Map.empty [66] (js_trim [121])"
    using k(3,4) v(3,4) by (intro key_equals_value) simp_all
  then have d2: "actualParse ?h None (or_empty (Some (Text (js ''B=y'')))) = [js ''B'' \<mapsto> js ''y'']"
    by (simp add: actualParse_def opt_field_def js_def js_set_def proto_key_def js_trim_def is_space_def)
  have both: "actualParse ?h None (or_empty (Some (Text (js ''A='')))) (js ''A'') = Some []
      \<and> actualParse ?h None (or_empty (Some (Text (js ''A=x'')))) (js ''A'') \<noteq> None"
    unfolding c d1 by simp
  have only: "actualParse ?h None (or_empty (Some (Text (js ''A='')))) (js ''B'') = None"
    "actualParse ?h None (or_empty (Some (Text (js ''B=y'')))) (js ''B'') = Some (js ''y'')"
    unfolding c d2 by (simp_all add: js_def)
  from merge_precedence[OF refl refl refl, of ?h None "Some (Text (js ''A=''))" "Some (Text (js ''A=x''))"] both
  have "loadedEnvVariables ?h None (Some (Text (js ''A=''))) (Some (Text (js ''A=x''))) (js ''A'') = Some []"
    by blast
  moreover
  from merge_precedence[OF refl refl refl, of ?h None "Some (Text (js ''A=''))" "Some (Text (js ''B=y''))"] only
  have "loadedEnvVariables ?h None (Some (Text (js ''A=''))) (Some (Text (js ''B=y''))) (js ''B'') = Some (js ''y'')"
    by metis
  ultimately show ?thesis
    by simp
qed

text \<open>
  The keys of the merge are not only those of both sources and those of the defaults
  source alone. The core file is \<open>A=1\<close> and there is no defaults file: the core source
  binds \<open>A\<close>, the defaults source is empty, and the merge binds \<open>A\<close> to \<open>1\<close>, a key
  that the defaults source does not have.
\<close>

theorem core_only_key_is_merged:
  "actualParse (example_host Map.empty) None (or_empty (Some (Text (js ''A=1'')))) (js ''A'') = Some (js ''1'')
   \<and> actualParse (example_host Map.empty) None (or_empty None) (js ''A'') = None
   \<and> loadedEnvVariables (example_host Map.empty) None (Some (Text (js ''A=1''))) None (js ''A'')
       = Some (js ''1'')
   \<and> \<not> dom (loadedEnvVariables (example_host Map.empty) None (Some (Text (js ''A=1''))) None)
         \<subseteq> dom (actualParse (example_host Map.empty) None (or_empty None))"
proof -
  let ?h = "example_host Map.empty :: (jsstring, jsstring) host"
  have k: "[65] \<noteq> []" "list_all is_key_char [65]"
    by (simp_all add: is_key_char_def is_word_def)
  have v: "unquoted [49]" "no_terminator [49]"
    by (simp_all add: unquoted_def value_char_def is_space_def is_quote_def no_terminator_def
        line_terminator_def)
  have "parse (decode ?h) (Text ([65] @ [] @ 61 # [49])) = js_set Map.empty [65] (js_trim [49])"
    using k v by (intro key_equals_value) simp_all
  then have c: "actualParse ?h None (Text (js ''A=1'')) = [js ''A'' \<mapsto> js ''1'']"
    by (simp add: actualParse_def opt_field_def js_def js_set_def proto_key_def js_trim_def is_space_def)
  have d: "actualParse ?h None (Text []) = Map.empty"
    by (simp add: actualParse_def opt_field_def parse_empty)
  have l: "loadedEnvVariables ?h None (Some (Text (js ''A=1''))) None (js ''A'') = Some (js ''1'')"
    by (simp add: loadedEnvVariables_def c d) (simp add: object_assign_def js_def proto_key_def)
  then have "js ''A'' \<in> dom (loadedEnvVariables ?h None (Some (Text (js ''A=1''))) None)"
    by blast
  then have n: "\<not> dom (loadedEnvVariables ?h None (Some (Text (js ''A=1''))) None)
      \<subseteq> dom (actualParse ?h None (Text []))"
    unfolding d by blast
  have 1: "actualParse ?h None (or_empty (Some (Text (js ''A=1'')))) (js ''A'') = Some (js ''1'')"
    by (simp add: c)
  have 2: "actualParse ?h None (or_empty None) (js ''A'') = None"
    by (simp add: d)
  have 3: "\<not> dom (loadedEnvVariables ?h None (Some (Text (js ''A=1''))) None)
      \<subseteq> dom (actualParse ?h None (or_empty None))"
    using n by simp
  from 1 2 l 3 show ?thesis
    by (intro conjI)
qed

text \<open>
  C2. Validation-failure atomicity. When the call reaches validation (the lookup of the
  environment name is neither \<open>undefined\<close> nor empty, and one of the two files was
  read) and \<open>schema.try\<close> returns a failure with the issues \<open>issues\<close>, the call fails
  with the error whose message is \<open>Validation errors: \<close> followed by the text of every
  issue, in order, one per line; each issue's text occurs in the message; and the
  environment is as it was.
\<close>

theorem validation_failure_atomic:
  assumes "process_env_get env (env_key opt) = Some currentEnvironment"
    and "currentEnvironment \<noteq> Variable []"
    and "coreEnvFileBuffer = loadFile h (Some (coreEnvFilePath h opt)) (opt_field encoding opt)"
    and "defaultsEnvFileBuffer =
           loadFile h (defaultsEnvFilePath h opt (string_of currentEnvironment)) (opt_field encoding opt)"
    and "truthy coreEnvFileBuffer \<or> truthy defaultsEnvFileBuffer"
    and "schema (loadedEnvVariables h opt coreEnvFileBuffer defaultsEnvFileBuffer) = Failed issues"
  shows "result (loadEnv h schema opt env) =
           Inl (Error (js ''Validation errors: '' @ join_lines (map (stringify h) issues)))
       \<and> (\<forall>i \<in> set issues. sublist (stringify h i) (validation_errors h issues))
       \<and> env_after (loadEnv h schema opt env) = env"
proof -
  have "\<forall>i \<in> set issues. sublist (stringify h i) (validation_errors h issues)"
    unfolding validation_errors_def
    by (auto intro!: sublist_prepend sublist_join_lines)
  moreover have "result (loadEnv h schema opt env) = Inl (Error (validation_errors h issues))
      \<and> env_after (loadEnv h schema opt env) = env"
    using assms by (auto simp: loadEnv_def Let_def)
  ultimately show ?thesis
    by (simp add: validation_errors_def)
qed

theorem validation_failure_witness:
  "result (loadEnv (example_host [js ''/app/.env'' \<mapsto> js ''C=1'']) (\<lambda>ob. Failed two_issues) None test_env) =
     Inl (Error (js ''Validation errors: {code: type, path: [A]}'' @ [10] @ js ''{code: type, path: [B]}''))
   \<and> sublist (js ''{code: type, path: [B]}'')
        (validation_errors (example_host [js ''/app/.env'' \<mapsto> js ''C=1'']) two_issues)
   \<and> env_after (loadEnv (example_host [js ''/app/.env'' \<mapsto> js ''C=1'']) (\<lambda>ob. Failed two_issues) None test_env)
       = test_env"
proof -
  let ?h = "example_host [js ''/app/.env'' \<mapsto> js ''C=1'']"
  have e: "process_env_get test_env (env_key None) = Some (Variable (js ''test''))"
    by (simp add: test_env_def env_key_def js_or_def opt_field_def env_eval)
  have t: "truthy (loadFile ?h (Some (coreEnvFilePath ?h None)) (opt_field encoding None))
         \<or> truthy (loadFile ?h (defaultsEnvFilePath ?h None (string_of (Variable (js ''test''))))
                     (opt_field encoding None))"
    by (simp add: loadFile_def coreEnvFilePath_def js_or_def opt_field_def example_host_def js_def)
  have n: "Variable (js ''test'') \<noteq> Variable []"
    by (simp add: js_def)
  have "schema = (\<lambda>ob. Failed two_issues) \<Longrightarrow>
        schema (loadedEnvVariables ?h None (loadFile ?h (Some (coreEnvFilePath ?h None)) (opt_field encoding None))
          (loadFile ?h (defaultsEnvFilePath ?h None (string_of (Variable (js ''test''))))
             (opt_field encoding None))) = Failed two_issues"
    for schema :: "obj \<Rightarrow> (jsstring, jsstring) try_result"
    by simp
  from validation_failure_atomic[where h = "?h" and opt = None and env = test_env
      and schema = "\<lambda>ob. Failed two_issues" and issues = two_issues, OF e n refl refl t this[OF refl]]
  show ?thesis
    by (simp add: two_issues_def example_host_def js_def)
qed

text \<open>
  C3. Success frame effect, for keys that are names of environment variables. The call
  reaches validation and \<open>schema.try\<close> succeeds with the value \<open>v\<close> (its properties,
  each name once), and every key of \<open>v\<close> names the variable of that very name: it is
  not empty and has no \<open>=\<close>, no NUL and no unpaired surrogate in it. Then the call
  succeeds; every key of \<open>v\<close> is bound in the environment to its value in \<open>v\<close> (as
  the string \<open>process.env\<close> stores for it), whatever was bound before, and a lookup
  in \<open>process.env\<close> finds that value; and every other variable of the environment is
  as it was.
\<close>

theorem success_overlays_validated_keys:
  assumes "process_env_get env (env_key opt) = Some currentEnvironment"
    and "currentEnvironment \<noteq> Variable []"
    and "coreEnvFileBuffer = loadFile h (Some (coreEnvFilePath h opt)) (opt_field encoding opt)"
    and "defaultsEnvFileBuffer =
           loadFile h (defaultsEnvFilePath h opt (string_of currentEnvironment)) (opt_field encoding opt)"
    and "truthy coreEnvFileBuffer \<or> truthy defaultsEnvFileBuffer"
    and "schema (loadedEnvVariables h opt coreEnvFileBuffer defaultsEnvFileBuffer) = Ok v"
    and "distinct (map fst v)"
    and "\<forall>k \<in> set (map fst v). env_name k = Some k"
  shows "result (loadEnv h schema opt env) = Inr ()
       \<and> (\<forall>k a. (k, a) \<in> set v \<longrightarrow>
             env_after (loadEnv h schema opt env) k = Some (to_env h a)
           \<and> process_env_get (env_after (loadEnv h schema opt env)) k = Some (Variable (to_env h a)))
       \<and> (\<forall>k. k \<notin> set (map fst v) \<longrightarrow> env_after (loadEnv h schema opt env) k = env k)"
proof -
  have l: "result (loadEnv h schema opt env) = Inr ()
      \<and> env_after (loadEnv h schema opt env) = env_assign (to_env h) env v"
    using assms(1-6) by (auto simp: loadEnv_def Let_def)
  have a: "env_assign (to_env h) env v k =
      (case map_of v k of None \<Rightarrow> env k | Some a \<Rightarrow> Some (to_env h a))" for k
    using assms(7,8) by (rule env_assign_names)
  have "env_assign (to_env h) env v k = Some (to_env h a)
      \<and> process_env_get (env_assign (to_env h) env v) k = Some (Variable (to_env h a))"
    if "(k, a) \<in> set v" for k a
  proof -
    from that assms(7) have "map_of v k = Some a"
      by simp
    then have s: "env_assign (to_env h) env v k = Some (to_env h a)"
      by (simp add: a)
    from that assms(8) have "env_name k = Some k"
      by force
    with s show ?thesis
      by (simp add: process_env_get_def)
  qed
  moreover have "env_assign (to_env h) env v k = env k" if "k \<notin> set (map fst v)" for k
  proof -
    from that have "map_of v k = None"
      by (simp add: map_of_eq_None_iff)
    then show ?thesis
      by (simp add: a)
  qed
  ultimately show ?thesis
    using l by simp
qed

theorem success_overlay_witness:
  "result (loadEnv (example_host [js ''/app/.env'' \<mapsto> js ''C=1''])
             (\<lambda>ob. Ok [(js ''HOME'', js ''/home/app''), (js ''PORT'', js ''80'')]) None test_env) = Inr ()
   \<and> env_after (loadEnv (example_host [js ''/app/.env'' \<mapsto> js ''C=1''])
             (\<lambda>ob. Ok [(js ''HOME'', js ''/home/app''), (js ''PORT'', js ''80'')]) None test_env)
       (js ''HOME'') = Some (js ''/home/app'')
   \<and> env_after (loadEnv (example_host [js ''/app/.env'' \<mapsto> js ''C=1''])
             (\<lambda>ob. Ok [(js ''HOME'', js ''/home/app''), (js ''PORT'', js ''80'')]) None test_env)
       (js ''NODE_ENV'') = Some (js ''test'')"
proof -
  let ?h = "example_host [js ''/app/.env'' \<mapsto> js ''C=1'']"
  let ?v = "[(js ''HOME'', js ''/home/app''), (js ''PORT'', js ''80'')]"
  have e: "process_env_get test_env (env_key None) = Some (Variable (js ''test''))"
    by (simp add: test_env_def env_key_def js_or_def opt_field_def env_eval)
  have t: "truthy (loadFile ?h (Some (coreEnvFilePath ?h None)) (opt_field encoding None))
         \<or> truthy (loadFile ?h (defaultsEnvFilePath ?h None (string_of (Variable (js ''test''))))
                     (opt_field encoding None))"
    by (simp add: loadFile_def coreEnvFilePath_def js_or_def opt_field_def example_host_def js_def)
  have n: "Variable (js ''test'') \<noteq> Variable []"
    by (simp add: js_def)
  have d: "distinct (map fst ?v)"
    by (simp add: js_def)
  have names: "\<forall>k \<in> set (map fst ?v). env_name k = Some k"
    by (simp add: env_eval)
  have v1: "(js ''HOME'', js ''/home/app'') \<in> set ?v" and v2: "js ''NODE_ENV'' \<notin> set (map fst ?v)"
    by (simp_all add: js_def)
  have "schema = (\<lambda>ob. Ok ?v) \<Longrightarrow>
        schema (loadedEnvVariables ?h None (loadFile ?h (Some (coreEnvFilePath ?h None)) (opt_field encoding None))
          (loadFile ?h (defaultsEnvFilePath ?h None (string_of (Variable (js ''test''))))
             (opt_field encoding None))) = Ok ?v"
    for schema :: "obj \<Rightarrow> (jsstring, jsstring) try_result"
    by simp
  from success_overlays_validated_keys[where h = "?h" and opt = None and env = test_env
      and schema = "\<lambda>ob. Ok ?v" and v = "?v", OF e n refl refl t this[OF refl] d names]
  have r: "result (loadEnv ?h (\<lambda>ob. Ok ?v) None test_env) = Inr ()"
    and o: "\<And>k a. (k, a) \<in> set ?v \<Longrightarrow>
          env_after (loadEnv ?h (\<lambda>ob. Ok ?v) None test_env) k = Some (to_env ?h a)"
    and f: "\<And>k. k \<notin> set (map fst ?v) \<Longrightarrow> env_after (loadEnv ?h (\<lambda>ob. Ok ?v) None test_env) k = test_env k"
    by blast+
  from r o[OF v1] f[OF v2] show ?thesis
    by (simp add: example_host_def test_env_def js_def)
qed

text \<open>
  A key that is not the name of a variable is not overlaid as the other keys are. The
  environment has \<open>NODE_ENV\<close>, \<open>HOME\<close> and \<open>C\<close> (bound to \<open>old\<close>), and the
  validated value has five keys: \<open>A=B\<close>; the empty string; \<open>C\<close>, NUL, \<open>D\<close>; a
  high surrogate alone; a low surrogate alone. The call succeeds. No variable \<open>A=B\<close>
  and no variable of the empty name is set, and a lookup of these keys finds nothing.
  The third key is stored under the name \<open>C\<close>, so that the variable \<open>C\<close>, which is
  not a key of the validated value, has lost its value. The last two keys both name the
  variable U+FFFD, and a lookup of the fourth key finds the value of the fifth.
\<close>

theorem invalid_names_are_not_overlaid:
  "result (loadEnv (example_host [js ''/app/.env'' \<mapsto> js ''C=1''])
             (\<lambda>ob. Ok [(js ''A=B'', js ''1''), ([], js ''2''), ([67, 0, 68], js ''3''),
                        ([55296], js ''4''), ([56320], js ''5'')]) None
             (test_env(js ''C'' \<mapsto> js ''old''))) = Inr ()
   \<and> env_after (loadEnv (example_host [js ''/app/.env'' \<mapsto> js ''C=1''])
             (\<lambda>ob. Ok [(js ''A=B'', js ''1''), ([], js ''2''), ([67, 0, 68], js ''3''),
                        ([55296], js ''4''), ([56320], js ''5'')]) None
             (test_env(js ''C'' \<mapsto> js ''old''))) = test_env(js ''C'' \<mapsto> js ''3'', [65533] \<mapsto> js ''5'')
   \<and> process_env_get (test_env(js ''C'' \<mapsto> js ''3'', [65533] \<mapsto> js ''5'')) (js ''A=B'') = None
   \<and> process_env_get (test_env(js ''C'' \<mapsto> js ''3'', [65533] \<mapsto> js ''5'')) [] = None
   \<and> js ''C'' \<notin> set (map fst [(js ''A=B'', js ''1''), ([], js ''2''), ([67, 0, 68], js ''3''),
                                  ([55296], js ''4''), ([56320], js ''5'')])
   \<and> (test_env(js ''C'' \<mapsto> js ''old'')) (js ''C'') = Some (js ''old'')
   \<and> (test_env(js ''C'' \<mapsto> js ''3'', [65533] \<mapsto> js ''5'')) (js ''C'') = Some (js ''3'')
   \<and> process_env_get (test_env(js ''C'' \<mapsto> js ''3'', [65533] \<mapsto> js ''5'')) [55296]
       = Some (Variable (js ''5''))"
  by (simp add: loadEnv_def loadFile_def coreEnvFilePath_def defaultsEnvFilePath_def js_or_def
      opt_field_def example_host_def test_env_def env_key_def env_assign_def env_eval)

text \<open>
  C4. Fail-fast on missing discriminator: not so when \<open>processEnvKey\<close> is the name of
  a member of \<open>Object.prototype\<close>. No variable \<open>toString\<close> is set, yet the lookup
  \<open>process.env['toString']\<close> is the inherited function, which is truthy: the call
  does not fail with the missing-environment error, it reads the core file and tries
  the defaults file named after the text of the function, and it writes the validated
  value to the environment.
\<close>

theorem inherited_discriminator_is_not_missing:
  "[js ''HOME'' \<mapsto> js ''/root''] (js ''toString'') = None
   \<and> process_env_get [js ''HOME'' \<mapsto> js ''/root''] (js ''toString'') = Some (Inherited (js ''toString''))
   \<and> loadEnv (example_host [js ''/app/.env'' \<mapsto> js ''C=1'']) (\<lambda>ob. Ok [(js ''C'', js ''1'')])
        (Some (utf8_options\<lparr>processEnvKey := Some (js ''toString'')\<rparr>)) [js ''HOME'' \<mapsto> js ''/root''] =
     \<lparr>result = Inr (),
      env_after = [js ''HOME'' \<mapsto> js ''/root'', js ''C'' \<mapsto> js ''1''],
      reads = [js ''/app/.env'', js ''/app/.env.function toString() { [native code] }.defaults'']\<rparr>"
  by (simp add: loadEnv_def loadFile_def coreEnvFilePath_def defaultsEnvFilePath_def js_or_def
      opt_field_def example_host_def utf8_options_def env_key_def env_assign_def env_eval)

text \<open>
  C5. Absent is distinct from empty: not so when an encoding is given. The core file
  exists and is empty, the defaults file does not exist, and the options name the
  encoding \<open>utf8\<close>: \<open>readFileSync\<close> returns the empty string, which is falsy as
  \<open>undefined\<close> is, and the call fails with the no-source-file error. Without the
  encoding the same file is read as an empty \<open>Buffer\<close> and the call succeeds.
\<close>

theorem empty_file_with_encoding_is_absent:
  "readFileSync (example_host [js ''/app/.env'' \<mapsto> []])
     (coreEnvFilePath (example_host [js ''/app/.env'' \<mapsto> []]) (Some utf8_options)) = Some []
   \<and> result (loadEnv (example_host [js ''/app/.env'' \<mapsto> []]) (\<lambda>ob. Ok []) (Some utf8_options) test_env)
       = Inl (Error no_source_file)
   \<and> result (loadEnv (example_host [js ''/app/.env'' \<mapsto> []]) (\<lambda>ob. Ok []) None test_env) = Inr ()"
  by (simp add: loadEnv_def loadFile_def coreEnvFilePath_def defaultsEnvFilePath_def js_or_def
      opt_field_def example_host_def utf8_options_def test_env_def env_key_def env_eval)

section \<open>The built-in parser on its input\<close>

text \<open>
  C6. Separator with optional whitespace: not so for the colon. The pattern accepts
  \<open>=\<close> with any whitespace around it, but a colon only directly after the key and
  followed by whitespace. So \<open>K:V\<close> and \<open>K : V\<close> match nothing and the result is
  empty, while \<open>K: V\<close> binds \<open>K\<close> to \<open>V\<close>.
\<close>

theorem colon_needs_a_following_space:
  "parse dec (Text (js ''K:V'')) = Map.empty
   \<and> parse dec (Text (js ''K : V'')) = Map.empty
   \<and> parse dec (Text (js ''K: V'')) = [js ''K'' \<mapsto> js ''V'']"
proof -
  have 1: "m LINE (start None (js ''K:V'')) Some = None"
    by (simp add: line_eval)
  have 2: "m LINE (start None (js ''K : V'')) Some = None"
    by (simp add: line_eval)
  have "parse dec (Text (75 # [58, 86])) = Map.empty"
    using 1 by (intro parse_no_match) (simp_all add: js_def no_terminator_def line_terminator_def)
  moreover have "parse dec (Text (75 # [32, 58, 32, 86])) = Map.empty"
    using 2 by (intro parse_no_match) (simp_all add: js_def no_terminator_def line_terminator_def)
  moreover have "parse dec (Text ([75] @ 58 # 32 # [86])) = js_set Map.empty [75] (js_trim [86])"
    by (rule key_colon_value)
       (simp_all add: is_key_char_def is_word_def is_space_def unquoted_def value_char_def is_quote_def
          no_terminator_def line_terminator_def)
  ultimately show ?thesis
    by (simp add: js_def js_set_def proto_key_def js_trim_def is_space_def)
qed

text \<open>
  C7. Escape expansion only in double quotes. A raw value that is, after trimming, a
  body \<open>B\<close> in double quotes is stored as \<open>B\<close> with every backslash-n and
  backslash-r expanded; in single quotes or backticks it is stored as \<open>B\<close> itself.
  The same through the whole parser, for the source \<open>K="B"\<close>, \<open>K='B'\<close> and the
  backtick form, where \<open>K\<close> is a key and \<open>B\<close> a quoted body without carriage returns.
\<close>

theorem escapes_expand_only_in_double_quotes:
  assumes "list_all is_space W"
  shows "unquote (W @ 34 # B @ [34]) = expand_escapes B
       \<and> unquote (W @ 39 # B @ [39]) = B
       \<and> unquote (W @ 96 # B @ [96]) = B
       \<and> (K \<noteq> [] \<and> list_all is_key_char K \<and> K \<noteq> proto_key \<and> 13 \<notin> set B \<longrightarrow>
            (quoted_body 34 B \<longrightarrow> parse dec (Text (K @ 61 # 34 # B @ [34])) = [K \<mapsto> expand_escapes B])
          \<and> (quoted_body 39 B \<longrightarrow> parse dec (Text (K @ 61 # 39 # B @ [39])) = [K \<mapsto> B])
          \<and> (quoted_body 96 B \<longrightarrow> parse dec (Text (K @ 61 # 96 # B @ [96])) = [K \<mapsto> B]))"
proof -
  have q: "is_quote 34" "is_quote 39" "is_quote 96"
    by (simp_all add: is_quote_def)
  have "unquote (W @ 34 # B @ [34]) = expand_escapes B" "unquote (W @ 39 # B @ [39]) = B"
    "unquote (W @ 96 # B @ [96]) = B"
    using assms by (simp_all add: unquote_quoted q)
  moreover have "parse dec (Text (K @ 61 # q # B @ [q])) = [K \<mapsto> if q = 34 then expand_escapes B else B]"
    if "K \<noteq> []" "list_all is_key_char K" "K \<noteq> proto_key" "13 \<notin> set B" "is_quote q" "quoted_body q B" for q
    using that by (simp add: key_equals_quoted js_set_empty)
  ultimately show ?thesis
    using q by simp
qed

theorem escapes_expand_witness:
  "unquote (32 # 34 # (js ''a'' @ [92, 110] @ js ''b'' @ [92, 114]) @ [34]) = js ''a'' @ [10] @ js ''b'' @ [13]
   \<and> unquote (32 # 39 # (js ''a'' @ [92, 110] @ js ''b'' @ [92, 114]) @ [39]) = js ''a'' @ [92, 110] @ js ''b'' @ [92, 114]
   \<and> parse (\<lambda>e bs. bs) (Text (js ''KEY='' @ 34 # (js ''a'' @ [92, 110] @ js ''b'' @ [92, 114]) @ [34]))
       = [js ''KEY'' \<mapsto> js ''a'' @ [10] @ js ''b'' @ [13]]
   \<and> parse (\<lambda>e bs. bs) (Text (js ''KEY='' @ 96 # (js ''a'' @ [92, 110] @ js ''b'' @ [92, 114]) @ [96]))
       = [js ''KEY'' \<mapsto> js ''a'' @ [92, 110] @ js ''b'' @ [92, 114]]"
proof -
  let ?B = "js ''a'' @ [92, 110] @ js ''b'' @ [92, 114]"
  have W: "list_all is_space [32]"
    by (simp add: is_space_def)
  have K: "js ''KEY'' \<noteq> [] \<and> list_all is_key_char (js ''KEY'') \<and> js ''KEY'' \<noteq> proto_key \<and> 13 \<notin> set ?B"
    by (simp add: js_def is_key_char_def is_word_def proto_key_def)
  have B: "quoted_body 34 ?B" "quoted_body 96 ?B"
    by (simp_all add: js_def)
  have e: "expand_escapes ?B = js ''a'' @ [10] @ js ''b'' @ [13]"
    by (simp add: js_def)
  from escapes_expand_only_in_double_quotes[OF W, of ?B "js ''KEY''" "\<lambda>e bs. bs"] K B e
  show ?thesis
    by (simp add: js_def)
qed

text \<open>
  C8. Empty right-hand side yields the empty string: not so for the key \<open>__proto__\<close>.
  The source \<open>__proto__=\<close> matches the pattern with that key, but the assignment
  \<open>obj[key] = value\<close> creates no property, and the result is empty. For the key \<open>K\<close>
  the source \<open>K=\<close> binds \<open>K\<close> to the empty string.
\<close>

theorem proto_key_is_not_stored:
  "parse dec (Text (js ''__proto__='')) = Map.empty
   \<and> parse dec (Text (js ''K='')) = [js ''K'' \<mapsto> []]"
proof -
  have "parse dec (Text (js ''__proto__'' @ [61])) = js_set Map.empty (js ''__proto__'') []"
    by (rule key_equals_empty) (simp_all add: js_def is_key_char_def is_word_def)
  moreover have "parse dec (Text (js ''K'' @ [61])) = js_set Map.empty (js ''K'') []"
    by (rule key_equals_empty) (simp_all add: js_def is_key_char_def is_word_def)
  ultimately show ?thesis
    by (simp add: js_def js_set_def proto_key_def)
qed

text \<open>
  C9. Duplicate keys, last match wins: not so for the key \<open>__proto__\<close>. In the source
  of the two lines \<open>__proto__=a\<close> and \<open>__proto__=b\<close> the key matches twice, with
  the values \<open>a\<close> and \<open>b\<close>, and the result does not bind it.
\<close>

theorem proto_key_matches_twice_and_stays_unbound:
  "entries None (js ''__proto__=a'' @ [10] @ js ''__proto__=b'') = [(proto_key, js ''a''), (proto_key, js ''b'')]
   \<and> parse dec (Text (js ''__proto__=a'' @ [10] @ js ''__proto__=b'')) proto_key = None"
proof -
  have "entries None (js ''__proto__=a'' @ [10] @ js ''__proto__=b'') = [(proto_key, js ''a''), (proto_key, js ''b'')]"
    by (simp add: line_eval entries_eval proto_key_def)
  then show ?thesis
    by (simp add: parse_proto_None)
qed

text \<open>
  C10. Escaped quote characters are never unescaped. A raw value that is, after
  trimming, a body \<open>B\<close> in quotes \<open>q\<close> loses exactly that one pair of quotes, whatever
  \<open>B\<close> is; the expansion of a double-quoted body leaves a backslash-quote pair where it
  is; and for the source \<open>K=qBq\<close> whose body holds a backslash-quote pair the stored
  value still holds that pair at its place.
\<close>

theorem escaped_quotes_stay_escaped:
  assumes "is_quote q" and "list_all is_space W"
  shows "unquote (W @ q # B @ [q]) = (if q = 34 then expand_escapes B else B)
       \<and> expand_escapes (B1 @ 92 # q # B2) = expand_escapes B1 @ 92 # q # expand_escapes B2
       \<and> (K \<noteq> [] \<and> list_all is_key_char K \<and> K \<noteq> proto_key \<and> 13 \<notin> set (B1 @ B2)
            \<and> quoted_body q (B1 @ 92 # q # B2) \<longrightarrow>
          parse dec (Text (K @ 61 # q # (B1 @ 92 # q # B2) @ [q])) =
            [K \<mapsto> if q = 34 then expand_escapes B1 @ 92 # q # expand_escapes B2 else B1 @ 92 # q # B2])"
proof -
  have 1: "unquote (W @ q # B @ [q]) = (if q = 34 then expand_escapes B else B)"
    using assms by (rule unquote_quoted)
  have 2: "expand_escapes (B1 @ 92 # q # B2) = expand_escapes B1 @ 92 # q # expand_escapes B2"
    using assms(1) by (rule expand_keeps_escaped_quote)
  have "parse dec (Text (K @ 61 # q # (B1 @ 92 # q # B2) @ [q])) =
      [K \<mapsto> if q = 34 then expand_escapes B1 @ 92 # q # expand_escapes B2 else B1 @ 92 # q # B2]"
    if "K \<noteq> []" "list_all is_key_char K" "K \<noteq> proto_key" "13 \<notin> set (B1 @ B2)"
      "quoted_body q (B1 @ 92 # q # B2)"
  proof -
    have "13 \<notin> set (B1 @ 92 # q # B2)"
      using that(4) assms(1) by (auto simp: is_quote_def)
    from key_equals_quoted[OF that(1,2) assms(1) that(5) this, of dec] that(3) 2 show ?thesis
      by (cases "q = 34") (simp_all add: js_set_empty)
  qed
  with 1 2 show ?thesis
    by simp
qed

theorem escaped_quotes_witness:
  "unquote (39 # (js ''it'' @ [92, 39] @ js ''s'') @ [39]) = js ''it'' @ [92, 39] @ js ''s''
   \<and> parse (\<lambda>e bs. bs) (Text (js ''MSG='' @ 39 # (js ''it'' @ [92, 39] @ js ''s'') @ [39]))
       = [js ''MSG'' \<mapsto> js ''it'' @ [92, 39] @ js ''s'']
   \<and> parse (\<lambda>e bs. bs) (Text (js ''MSG='' @ 34 # (js ''a'' @ [92, 34] @ [92, 110]) @ [34]))
       = [js ''MSG'' \<mapsto> js ''a'' @ [92, 34] @ [10]]"
proof -
  have q: "is_quote 39" "is_quote 34"
    by (simp_all add: is_quote_def)
  have W: "list_all is_space []"
    by simp
  have K: "js ''MSG'' \<noteq> [] \<and> list_all is_key_char (js ''MSG'') \<and> js ''MSG'' \<noteq> proto_key"
    by (simp add: js_def is_key_char_def is_word_def proto_key_def)
  have B: "13 \<notin> set (js ''it'' @ js ''s'') \<and> quoted_body 39 (js ''it'' @ 92 # 39 # js ''s'')"
    "13 \<notin> set (js ''a'' @ [92, 110]) \<and> quoted_body 34 (js ''a'' @ 92 # 34 # [92, 110])"
    by (simp_all add: js_def)
  from escaped_quotes_stay_escaped[OF q(1) W, of "js ''it'' @ [92, 39] @ js ''s''" "js ''it''" "js ''s''" "js ''MSG''" "\<lambda>e bs. bs"]
    escaped_quotes_stay_escaped[OF q(2) W, of "[]" "js ''a''" "[92, 110]" "js ''MSG''" "\<lambda>e bs. bs"] K B
  show ?thesis
    by (simp add: js_def)
qed

section \<open>Further properties of the parser and the loader\<close>

text \<open>
  For a key \<open>K\<close> other than \<open>__proto__\<close> and an unquoted value \<open>V\<close> without line
  terminators, the sources \<open>K=V\<close>, \<open>K = V\<close> and \<open>K: V\<close> each parse to the mapping that
  binds \<open>K\<close> to \<open>V\<close> trimmed.
\<close>

theorem equals_and_colon_space_forms:
  assumes "K \<noteq> []" and "list_all is_key_char K" and "K \<noteq> proto_key"
    and "unquoted V" and "no_terminator V"
  shows "parse dec (Text (K @ js ''='' @ V)) = [K \<mapsto> js_trim V]
       \<and> parse dec (Text (K @ js '' = '' @ V)) = [K \<mapsto> js_trim V]
       \<and> parse dec (Text (K @ js '': '' @ V)) = [K \<mapsto> js_trim V]"
proof -
  have sp: "is_space 32" "list_all is_space [32]" "(13::nat) \<notin> set [32]"
    by (simp_all add: is_space_def)
  have V': "unquoted (32 # V)" "no_terminator (32 # V)" "js_trim (32 # V) = js_trim V"
    using assms(4,5) sp(1)
    by (simp_all add: unquoted_def no_terminator_def value_char_def line_terminator_def js_trim_def)
  have "parse dec (Text (K @ [] @ 61 # V)) = js_set Map.empty K (js_trim V)"
    using assms by (intro key_equals_value) simp_all
  moreover have "parse dec (Text (K @ [32] @ 61 # 32 # V)) = js_set Map.empty K (js_trim (32 # V))"
    using assms(1,2) sp V' by (intro key_equals_value) simp_all
  moreover have "parse dec (Text (K @ 58 # 32 # V)) = js_set Map.empty K (js_trim V)"
    using assms sp by (intro key_colon_value) simp_all
  ultimately show ?thesis
    using assms(3) V'(3) by (simp add: js_set_empty js_def)
qed

theorem equals_and_colon_space_witness:
  "parse (\<lambda>e bs. bs) (Text (js ''DATABASE_URL=core.database.url'')) = [js ''DATABASE_URL'' \<mapsto> js ''core.database.url'']
   \<and> parse (\<lambda>e bs. bs) (Text (js ''PORT = 8080 '')) = [js ''PORT'' \<mapsto> js ''8080'']
   \<and> parse (\<lambda>e bs. bs) (Text (js ''export: yes'')) = [js ''export'' \<mapsto> js ''yes'']"
proof -
  have 1: "js ''DATABASE_URL'' \<noteq> []" "list_all is_key_char (js ''DATABASE_URL'')" "js ''DATABASE_URL'' \<noteq> proto_key"
    "unquoted (js ''core.database.url'')" "no_terminator (js ''core.database.url'')"
    by (simp_all add: js_def is_key_char_def is_word_def proto_key_def unquoted_def value_char_def
        is_space_def is_quote_def no_terminator_def line_terminator_def)
  have 2: "js ''PORT'' \<noteq> []" "list_all is_key_char (js ''PORT'')" "js ''PORT'' \<noteq> proto_key"
    "unquoted (js ''8080 '')" "no_terminator (js ''8080 '')"
    by (simp_all add: js_def is_key_char_def is_word_def proto_key_def unquoted_def value_char_def
        is_space_def is_quote_def no_terminator_def line_terminator_def)
  have 3: "js ''export'' \<noteq> []" "list_all is_key_char (js ''export'')" "js ''export'' \<noteq> proto_key"
    "unquoted (js ''yes'')" "no_terminator (js ''yes'')"
    by (simp_all add: js_def is_key_char_def is_word_def proto_key_def unquoted_def value_char_def
        is_space_def is_quote_def no_terminator_def line_terminator_def)
  have t: "js_trim (js ''8080 '') = js ''8080''" "js_trim (js ''core.database.url'') = js ''core.database.url''"
    "js_trim (js ''yes'') = js ''yes''"
    by (simp_all add: js_trim_def js_def is_space_def)
  from equals_and_colon_space_forms[OF 1, of "\<lambda>e bs. bs"] equals_and_colon_space_forms[OF 2, of "\<lambda>e bs. bs"]
    equals_and_colon_space_forms[OF 3, of "\<lambda>e bs. bs"] t
  show ?thesis
    by (simp add: js_def)
qed

text \<open>
  For a key \<open>K\<close> other than \<open>__proto__\<close> the source \<open>K=\<close> parses to the mapping
  that binds \<open>K\<close> to the empty string.
\<close>

theorem empty_right_hand_side:
  assumes "K \<noteq> []" and "list_all is_key_char K" and "K \<noteq> proto_key"
  shows "parse dec (Text (K @ js ''='')) = [K \<mapsto> []]"
  using key_equals_empty[OF assms(1,2), of dec] assms(3) by (simp add: js_set_empty js_def)

theorem empty_right_hand_side_witness:
  "parse (\<lambda>e bs. bs) (Text (js ''JWT_SECRET_TOKEN='')) = [js ''JWT_SECRET_TOKEN'' \<mapsto> []]"
proof -
  have "js ''JWT_SECRET_TOKEN'' \<noteq> []" "list_all is_key_char (js ''JWT_SECRET_TOKEN'')"
    "js ''JWT_SECRET_TOKEN'' \<noteq> proto_key"
    by (simp_all add: js_def is_key_char_def is_word_def proto_key_def)
  from empty_right_hand_side[OF this, of "\<lambda>e bs. bs"] show ?thesis
    by (simp add: js_def)
qed

text \<open>
  For every source and every key other than \<open>__proto__\<close>, the parser binds the key
  as the last match with that key does, and leaves it unbound when no match has it.
\<close>

theorem later_match_wins:
  assumes "k \<noteq> proto_key"
  shows "parse dec src k =
           map_of (rev (entries None (replace_all CRLF (\<lambda>z. [10]) None (toString dec src)))) k"
  using assms by (rule last_match_wins)

theorem later_match_wins_witness:
  "entries None (replace_all CRLF (\<lambda>z. [10]) None (toString (\<lambda>e bs. bs) (Text (js ''A=1'' @ [13, 10] @ js ''A=2''))))
     = [(js ''A'', js ''1''), (js ''A'', js ''2'')]
   \<and> parse (\<lambda>e bs. bs) (Text (js ''A=1'' @ [13, 10] @ js ''A=2'')) (js ''A'') = Some (js ''2'')"
proof -
  have n: "js ''A'' \<noteq> proto_key"
    by (simp add: js_def proto_key_def)
  have e: "entries None (replace_all CRLF (\<lambda>z. [10]) None (toString (\<lambda>e bs. bs) (Text (js ''A=1'' @ [13, 10] @ js ''A=2''))))
     = [(js ''A'', js ''1''), (js ''A'', js ''2'')]"
    by (simp add: line_eval entries_eval CRLF_def)
  from later_match_wins[OF n, of "\<lambda>e bs. bs" "Text (js ''A=1'' @ [13, 10] @ js ''A=2'')"] e
  show ?thesis
    by (simp add: js_def)
qed

text \<open>Whatever the source, the built-in parser never binds the key \<open>__proto__\<close>.\<close>

theorem proto_never_bound: "parse dec src proto_key = None"
  by (rule parse_proto_None)

text \<open>
  When the lookup of the environment name in \<open>process.env\<close> is \<open>undefined\<close> or the
  empty string, the call fails with the missing-environment error, has tried to read no
  file, and the environment is as it was. The lookup is \<open>undefined\<close> when no variable
  of that name is set and the name is not one of a member of \<open>Object.prototype\<close>.
\<close>

theorem missing_discriminator_fails_fast:
  assumes "process_env_get env (env_key opt) = None
         \<or> process_env_get env (env_key opt) = Some (Variable [])"
  shows "loadEnv h schema opt env =
           \<lparr>result = Inl (Error missing_environment), env_after = env, reads = []\<rparr>"
  using assms by (auto simp: loadEnv_def)

theorem missing_discriminator_witness:
  "loadEnv (example_host Map.empty) (\<lambda>ob. Ok []) None [js ''HOME'' \<mapsto> js ''/root''] =
     \<lparr>result = Inl (Error missing_environment), env_after = [js ''HOME'' \<mapsto> js ''/root''], reads = []\<rparr>
   \<and> loadEnv (example_host Map.empty) (\<lambda>ob. Ok []) (Some (utf8_options\<lparr>processEnvKey := Some (js ''MY_ENV'')\<rparr>))
        [js ''MY_ENV'' \<mapsto> [], js ''NODE_ENV'' \<mapsto> js ''test''] =
     \<lparr>result = Inl (Error missing_environment),
      env_after = [js ''MY_ENV'' \<mapsto> [], js ''NODE_ENV'' \<mapsto> js ''test''], reads = []\<rparr>"
proof -
  have a: "process_env_get [js ''HOME'' \<mapsto> js ''/root''] (env_key None) = None"
    by (simp add: env_key_def js_or_def opt_field_def env_eval)
  have b: "process_env_get [js ''MY_ENV'' \<mapsto> [], js ''NODE_ENV'' \<mapsto> js ''test'']
             (env_key (Some (utf8_options\<lparr>processEnvKey := Some (js ''MY_ENV'')\<rparr>))) = Some (Variable [])"
    by (simp add: env_key_def js_or_def opt_field_def utf8_options_def env_eval)
  show ?thesis
    by (intro conjI missing_discriminator_fails_fast disjI1[OF a] disjI2[OF b])
qed

text \<open>
  Without the \<open>encoding\<close> option, and with the environment name set, the call
  fails with the no-source-file error exactly when neither of the two files can be read.
\<close>

theorem no_source_file_without_encoding:
  assumes "process_env_get env (env_key opt) = Some currentEnvironment"
    and "currentEnvironment \<noteq> Variable []"
    and "opt_field encoding opt = None"
  shows "result (loadEnv h schema opt env) = Inl (Error no_source_file) \<longleftrightarrow>
           loadFile h (Some (coreEnvFilePath h opt)) None = None
         \<and> loadFile h (defaultsEnvFilePath h opt (string_of currentEnvironment)) None = None"
proof -
  have v: "validation_errors h issues \<noteq> no_source_file" for issues
    by (simp add: validation_errors_def no_source_file_def js_def)
  show ?thesis
    using assms v
    by (auto simp: loadEnv_def Let_def loadFile_def split: option.splits try_result.splits)
qed

theorem no_source_file_without_encoding_witness:
  "result (loadEnv (example_host Map.empty) (\<lambda>ob. Ok []) None test_env) = Inl (Error no_source_file)
   \<and> result (loadEnv (example_host [js ''/app/.env.test.defaults'' \<mapsto> []]) (\<lambda>ob. Ok []) None test_env)
       \<noteq> Inl (Error no_source_file)"
proof -
  have e: "process_env_get test_env (env_key None) = Some (Variable (js ''test''))"
    and n: "Variable (js ''test'') \<noteq> Variable []"
    and o: "opt_field encoding None = None"
    by (simp_all add: test_env_def env_key_def js_or_def opt_field_def env_eval)
  let ?h1 = "example_host Map.empty :: (jsstring, jsstring) host"
  let ?h2 = "example_host [js ''/app/.env.test.defaults'' \<mapsto> []] :: (jsstring, jsstring) host"
  have 1: "loadFile ?h1 (Some (coreEnvFilePath ?h1 None)) None = None
         \<and> loadFile ?h1 (defaultsEnvFilePath ?h1 None (string_of (Variable (js ''test'')))) None = None"
    by (simp add: example_host_def loadFile_def defaultsEnvFilePath_def opt_field_def)
  have 2: "loadFile ?h2 (defaultsEnvFilePath ?h2 None (string_of (Variable (js ''test'')))) None \<noteq> None"
    by (simp add: example_host_def loadFile_def defaultsEnvFilePath_def js_or_def opt_field_def js_def)
  from no_source_file_without_encoding[where env = test_env and opt = None and h = ?h1
      and schema = "\<lambda>ob. Ok []", OF e n o] 1
    no_source_file_without_encoding[where env = test_env and opt = None and h = ?h2
      and schema = "\<lambda>ob. Ok []", OF e n o] 2
  show ?thesis
    by simp
qed

end
